theory Spec2Isabelle
  imports Complex_Main "HOL-Library.Word" "HOL-Library.Multiset"
begin

unbundle bit_operations_syntax

section \<open>Machine types and memory\<close>

type_synonym u8 = "8 word"
type_synonym u32 = "32 word"
type_synonym u64 = "64 word"

text \<open>
  A C array is a list of its elements. An access outside an array is undefined behaviour
  in C; the model makes it a value of type \<open>error\<close>: \<open>OutOfBounds\<close> for an access past
  the end of an array, \<open>StackUnderflow\<close> for a read before the start of the chaining-value
  stack. \<open>NoProgress\<close> stands for a loop of the source that repeats without consuming
  input and so never returns. \<open>InvalidLength\<close> and \<open>LengthMismatch\<close> are the two ways in
  which the sequential hash returns \<open>-1\<close>.
\<close>

datatype error = OutOfBounds | StackUnderflow | NoProgress | InvalidLength | LengthMismatch

text \<open>\<open>memcpy(dst + off, src, length src)\<close> into an array \<open>dst\<close>.\<close>

definition memcpy :: "'a list \<Rightarrow> nat \<Rightarrow> 'a list \<Rightarrow> error + 'a list" where
  "memcpy dst off src =
     (if off + length src \<le> length dst
      then Inr (take off dst @ src @ drop (off + length src) dst)
      else Inl OutOfBounds)"

text \<open>Little-endian load and store of a 32-bit word, as the source spells them out.\<close>

definition load32 :: "u8 list \<Rightarrow> nat \<Rightarrow> u32" where
  "load32 block i =
     (ucast (block ! (4 * i))) OR
     (push_bit 8 (ucast (block ! (4 * i + 1)))) OR
     (push_bit 16 (ucast (block ! (4 * i + 2)))) OR
     (push_bit 24 (ucast (block ! (4 * i + 3))))"

definition store32 :: "u32 \<Rightarrow> u8 list" where
  "store32 w = [ucast w, ucast (drop_bit 8 w), ucast (drop_bit 16 w), ucast (drop_bit 24 w)]"

text \<open>
  The bytes of a \<open>uint32_t\<close> array as \<open>memcpy\<close> and the cast \<open>(uint8_t*)\<close> see them
  (little-endian host).
\<close>

definition words_bytes :: "u32 list \<Rightarrow> u8 list" where
  "words_bytes ws = concat (map store32 ws)"

section \<open>Tree hash: \<open>blake3.c\<close>\<close>

definition BLAKE3_BLOCK_LEN :: nat where "BLAKE3_BLOCK_LEN = 64"
definition BLAKE3_CHUNK_LEN :: nat where "BLAKE3_CHUNK_LEN = 1024"
definition BLAKE3_MAX_DEPTH :: nat where "BLAKE3_MAX_DEPTH = 54"

definition blake3_IV :: "u32 list" where
  "blake3_IV =
     [0x6A09E667, 0xBB67AE85, 0x3C6EF372, 0xA54FF53A,
      0x510E527F, 0x9B05688C, 0x1F83D9AB, 0x5BE0CD19]"

definition blake3_msg_schedule :: "nat list list" where
  "blake3_msg_schedule =
     [[0, 1, 2, 3, 4, 5, 6, 7, 8, 9, 10, 11, 12, 13, 14, 15],
      [2, 6, 3, 10, 7, 0, 4, 13, 1, 11, 12, 5, 9, 14, 15, 8],
      [3, 4, 10, 12, 13, 2, 7, 14, 6, 5, 9, 0, 11, 15, 8, 1],
      [10, 7, 12, 9, 14, 3, 13, 15, 4, 0, 11, 2, 5, 8, 1, 6],
      [12, 13, 9, 11, 15, 10, 14, 8, 7, 2, 5, 3, 0, 1, 6, 4],
      [9, 14, 11, 5, 8, 12, 15, 1, 13, 3, 0, 10, 2, 6, 4, 7],
      [11, 15, 5, 0, 1, 9, 8, 6, 14, 10, 2, 12, 3, 4, 7, 13]]"

definition CHUNK_START :: u8 where "CHUNK_START = push_bit 0 1"
definition CHUNK_END :: u8 where "CHUNK_END = push_bit 1 1"
definition PARENT :: u8 where "PARENT = push_bit 2 1"
definition ROOT :: u8 where "ROOT = push_bit 3 1"
definition KEYED_HASH :: u8 where "KEYED_HASH = push_bit 4 1"

definition rotr32 :: "u32 \<Rightarrow> nat \<Rightarrow> u32" where
  "rotr32 w c = (drop_bit c w) OR (push_bit (32 - c) w)"

definition g :: "u32 list \<Rightarrow> nat \<Rightarrow> nat \<Rightarrow> nat \<Rightarrow> nat \<Rightarrow> u32 \<Rightarrow> u32 \<Rightarrow> u32 list" where
  "g state a b c d x y =
     (let s1 = state[a := state ! a + state ! b + x];
          s2 = s1[d := rotr32 (s1 ! d XOR s1 ! a) 16];
          s3 = s2[c := s2 ! c + s2 ! d];
          s4 = s3[b := rotr32 (s3 ! b XOR s3 ! c) 12];
          s5 = s4[a := s4 ! a + s4 ! b + y];
          s6 = s5[d := rotr32 (s5 ! d XOR s5 ! a) 8];
          s7 = s6[c := s6 ! c + s6 ! d]
      in s7[b := rotr32 (s7 ! b XOR s7 ! c) 7])"

definition round_fn :: "u32 list \<Rightarrow> u32 list \<Rightarrow> nat \<Rightarrow> u32 list" where
  "round_fn state msg rnd =
     (let sch = blake3_msg_schedule ! rnd;
          s1 = g state 0 4 8 12 (msg ! (sch ! 0)) (msg ! (sch ! 1));
          s2 = g s1 1 5 9 13 (msg ! (sch ! 2)) (msg ! (sch ! 3));
          s3 = g s2 2 6 10 14 (msg ! (sch ! 4)) (msg ! (sch ! 5));
          s4 = g s3 3 7 11 15 (msg ! (sch ! 6)) (msg ! (sch ! 7));
          s5 = g s4 0 5 10 15 (msg ! (sch ! 8)) (msg ! (sch ! 9));
          s6 = g s5 1 6 11 12 (msg ! (sch ! 10)) (msg ! (sch ! 11));
          s7 = g s6 2 7 8 13 (msg ! (sch ! 12)) (msg ! (sch ! 13))
      in g s7 3 4 9 14 (msg ! (sch ! 14)) (msg ! (sch ! 15)))"

text \<open>
  The part shared by \<open>blake3_compress_in_place\<close> and \<open>blake3_compress_xof\<close>: the initial
  16-word state, the message words, and the seven rounds.
\<close>

definition compress_rounds :: "u32 list \<Rightarrow> u8 list \<Rightarrow> nat \<Rightarrow> u64 \<Rightarrow> u8 \<Rightarrow> u32 list" where
  "compress_rounds cv block block_len counter fl =
     (let state = (take 8 cv @ blake3_IV)
                    [12 := ucast counter, 13 := ucast (drop_bit 32 counter),
                     14 := of_nat block_len, 15 := ucast fl];
          block_words = map (load32 block) [0..<16]
      in fold (\<lambda>rnd st. round_fn st block_words rnd) [0..<7] state)"

definition blake3_compress_in_place :: "u32 list \<Rightarrow> u8 list \<Rightarrow> nat \<Rightarrow> u64 \<Rightarrow> u8 \<Rightarrow> u32 list" where
  "blake3_compress_in_place cv block block_len counter fl =
     (let state = compress_rounds cv block block_len counter fl
      in map (\<lambda>i. state ! i XOR state ! (i + 8)) [0..<8])"

definition blake3_compress_xof :: "u32 list \<Rightarrow> u8 list \<Rightarrow> nat \<Rightarrow> u64 \<Rightarrow> u8 \<Rightarrow> u8 list" where
  "blake3_compress_xof cv block block_len counter fl =
     (let state = compress_rounds cv block block_len counter fl
      in concat (map (\<lambda>i. store32 (state ! i XOR state ! (i mod 8))) [0..<16]))"

record blake3_chunk_state =
  cv :: "u32 list"
  chunk_counter :: u64
  buf :: "u8 list"
  buf_len :: u8
  blocks_compressed :: u8
  flags :: u8

record blake3_hasher =
  key :: "u32 list"
  chunk :: blake3_chunk_state
  cv_stack_len :: u8
  cv_stack :: "u32 list"

definition chunk_state_init :: "u32 list \<Rightarrow> u8 \<Rightarrow> blake3_chunk_state" where
  "chunk_state_init k fl =
     \<lparr>cv = take 8 k, chunk_counter = 0, buf = replicate BLAKE3_BLOCK_LEN 0, buf_len = 0,
      blocks_compressed = 0, flags = fl\<rparr>"

text \<open>
  One iteration of the loop of \<open>chunk_state_update\<close>, split into its two halves: the
  compression of a full buffer, and the copy of the next \<open>take\<close> bytes. \<open>want\<close> is a
  \<open>size_t\<close>, so the subtraction wraps modulo \<open>2 ^ 64\<close>.
\<close>

definition chunk_flush :: "blake3_chunk_state \<Rightarrow> blake3_chunk_state" where
  "chunk_flush self =
     (if unat (buf_len self) = BLAKE3_BLOCK_LEN
      then let block_flags = flags self OR (if blocks_compressed self = 0 then CHUNK_START else 0)
           in self\<lparr>cv := blake3_compress_in_place (cv self) (buf self) BLAKE3_BLOCK_LEN
                              (chunk_counter self) block_flags,
                    blocks_compressed := blocks_compressed self + 1,
                    buf_len := 0\<rparr>
      else self)"

definition chunk_want :: "blake3_chunk_state \<Rightarrow> nat" where
  "chunk_want self = nat ((int BLAKE3_BLOCK_LEN - int (unat (buf_len self))) mod 2 ^ 64)"

function chunk_state_update :: "blake3_chunk_state \<Rightarrow> u8 list \<Rightarrow> error + blake3_chunk_state" where
  "chunk_state_update self input =
     (if input = [] then Inr self
      else
        let s1 = chunk_flush self;
            tk = min (length input) (chunk_want s1)
        in case memcpy (buf s1) (unat (buf_len s1)) (take tk input) of
             Inl e \<Rightarrow> Inl e
           | Inr b \<Rightarrow>
               chunk_state_update (s1\<lparr>buf := b, buf_len := buf_len s1 + of_nat tk\<rparr>)
                 (drop tk input))"
  by pat_completeness auto

lemma size_t_sub_pos:
  fixes n :: nat
  assumes "n < 256" "n \<noteq> m" "m \<le> 1024"
  shows "0 < nat ((int m - int n) mod 2 ^ 64)"
proof -
  define x where "x = int m - int n"
  have x: "x \<noteq> 0" "- 256 < x" "x \<le> 1024"
    using assms by (auto simp: x_def)
  have "0 < x mod 2 ^ 64"
  proof (cases "0 < x")
    case True
    then have "x mod 2 ^ 64 = x" using x by (intro mod_pos_pos_trivial) auto
    then show ?thesis using True by simp
  next
    case False
    then have "x < 0" using x by simp
    then have "(x + 2 ^ 64) mod 2 ^ 64 = x + 2 ^ 64"
      using x by (intro mod_pos_pos_trivial) auto
    then have "x mod 2 ^ 64 = x + 2 ^ 64" by simp
    then show ?thesis using x by simp
  qed
  then show ?thesis by (simp add: x_def)
qed

lemma u8_unat_bound: "unat (w :: u8) < 256"
  using unsigned_less [of w, where ?'a = nat] by simp

lemma chunk_want_pos: "0 < chunk_want (chunk_flush self)"
proof (cases "unat (buf_len self) = 64")
  case True
  then show ?thesis
    by (simp add: chunk_want_def chunk_flush_def BLAKE3_BLOCK_LEN_def Let_def)
next
  case False
  have "0 < nat ((int 64 - int (unat (buf_len self))) mod 2 ^ 64)"
    by (rule size_t_sub_pos) (use False u8_unat_bound in auto)
  then show ?thesis
    using False by (simp add: chunk_want_def chunk_flush_def BLAKE3_BLOCK_LEN_def)
qed

termination chunk_state_update
proof (relation "measure (\<lambda>(self, input). length input)")
  show "wf (measure (\<lambda>(self, input). length input))" by simp
next
  fix self :: blake3_chunk_state and input :: "u8 list" and s1 tk b
  assume "input \<noteq> []" "s1 = chunk_flush self" "tk = min (length input) (chunk_want s1)"
  then have "0 < tk" using chunk_want_pos [of self] by simp
  then show "((s1\<lparr>buf := b, buf_len := buf_len s1 + of_nat tk\<rparr>, drop tk input), (self, input))
             \<in> measure (\<lambda>(self, input). length input)"
    using \<open>input \<noteq> []\<close> by simp
qed

declare chunk_state_update.simps [simp del]

definition chunk_state_output :: "blake3_chunk_state \<Rightarrow> u8 list" where
  "chunk_state_output self =
     (let block_flags = flags self OR (if blocks_compressed self = 0 then CHUNK_START else 0)
                          OR CHUNK_END
      in blake3_compress_xof (cv self) (buf self) (unat (buf_len self)) (chunk_counter self)
           block_flags)"

definition parent_output :: "u8 list \<Rightarrow> u32 list \<Rightarrow> u8 \<Rightarrow> u8 list" where
  "parent_output block k fl = blake3_compress_xof k block BLAKE3_BLOCK_LEN 0 (fl OR PARENT)"

text \<open>
  \<open>parent_cv\<close> hands its 32-byte local array \<open>cv_bytes\<close> to \<open>parent_output\<close>, which writes the
  64 bytes of \<open>blake3_compress_xof\<close> into it.
\<close>

definition parent_cv :: "u8 list \<Rightarrow> u32 list \<Rightarrow> u8 \<Rightarrow> error + u32 list" where
  "parent_cv block k fl =
     (case memcpy (replicate 32 (0 :: u8)) 0 (parent_output block k fl) of
        Inl e \<Rightarrow> Inl e
      | Inr cv_bytes \<Rightarrow> Inr (map (load32 cv_bytes) [0..<8]))"

text \<open>
  The eight words of the chaining-value stack at entry \<open>i\<close>, where \<open>i\<close> is the \<open>int\<close> the
  source computes as \<open>cv_stack_len - 1\<close>.
\<close>

definition cv_stack_read :: "u32 list \<Rightarrow> int \<Rightarrow> error + u32 list" where
  "cv_stack_read stack i =
     (if i < 0 then Inl StackUnderflow
      else if nat i * 8 + 8 \<le> length stack then Inr (take 8 (drop (nat i * 8) stack))
      else Inl OutOfBounds)"

text \<open>The \<open>while (total_chunks & 1)\<close> loop of \<open>add_chunk_cv\<close>.\<close>

function add_chunk_cv_loop ::
  "u32 list \<Rightarrow> u8 \<Rightarrow> u32 list \<Rightarrow> u8 \<Rightarrow> u32 list \<Rightarrow> u64 \<Rightarrow> error + (u8 \<times> u32 list)" where
  "add_chunk_cv_loop k fl stack len new_cv total_chunks =
     (if total_chunks AND 1 \<noteq> 0 then
        (case cv_stack_read stack (int (unat len) - 1) of
           Inl e \<Rightarrow> Inl e
         | Inr popped \<Rightarrow>
             (case parent_cv (words_bytes popped @ words_bytes new_cv) k fl of
                Inl e \<Rightarrow> Inl e
              | Inr new_cv' \<Rightarrow>
                  add_chunk_cv_loop k fl stack (len - 1) new_cv' (drop_bit 1 total_chunks)))
      else Inr (len, new_cv))"
  by pat_completeness auto

lemma drop_bit_1_less: "(w :: u64) AND 1 \<noteq> 0 \<Longrightarrow> unat (drop_bit 1 w) < unat w"
proof -
  assume "w AND 1 \<noteq> 0"
  then have "w \<noteq> 0" by auto
  then have "0 < unat w" by (simp add: unat_gt_0)
  then show ?thesis by (simp add: drop_bit_eq_div unat_div)
qed

termination add_chunk_cv_loop
  by (relation "measure (\<lambda>(k, fl, stack, len, new_cv, total_chunks). unat total_chunks)")
     (auto simp: drop_bit_1_less [simplified])

declare add_chunk_cv_loop.simps [simp del]

definition add_chunk_cv :: "blake3_hasher \<Rightarrow> u32 list \<Rightarrow> u64 \<Rightarrow> error + blake3_hasher" where
  "add_chunk_cv self new_cv total_chunks =
     (case add_chunk_cv_loop (key self) (flags (chunk self)) (cv_stack self) (cv_stack_len self)
             new_cv total_chunks of
        Inl e \<Rightarrow> Inl e
      | Inr (len, new_cv') \<Rightarrow>
          (case memcpy (cv_stack self) (unat len * 8) new_cv' of
             Inl e \<Rightarrow> Inl e
           | Inr stack' \<Rightarrow> Inr (self\<lparr>cv_stack := stack', cv_stack_len := len + 1\<rparr>)))"

text \<open>
  \<open>blake3_hasher_init\<close> leaves the array \<open>cv_stack\<close> as it finds it; the model starts it
  as zeros.
\<close>

definition blake3_hasher_init :: blake3_hasher where
  "blake3_hasher_init =
     \<lparr>key = blake3_IV, chunk = chunk_state_init blake3_IV 0, cv_stack_len = 0,
      cv_stack = replicate (BLAKE3_MAX_DEPTH * 8) 0\<rparr>"

text \<open>The body of the \<open>if\<close> in \<open>blake3_hasher_update\<close> that closes a full chunk.\<close>

definition hasher_chunk_full :: "blake3_hasher \<Rightarrow> bool" where
  "hasher_chunk_full self \<longleftrightarrow>
     unat (buf_len (chunk self)) = BLAKE3_BLOCK_LEN \<and>
     unat (blocks_compressed (chunk self)) = BLAKE3_CHUNK_LEN div BLAKE3_BLOCK_LEN - 1"

definition hasher_complete_chunk :: "blake3_hasher \<Rightarrow> error + blake3_hasher" where
  "hasher_complete_chunk self =
     (let chunk_cv = chunk_state_output (chunk self);
          chunk_cv_words = map (load32 chunk_cv) [0..<8]
      in case add_chunk_cv self chunk_cv_words (chunk_counter (chunk self) + 1) of
           Inl e \<Rightarrow> Inl e
         | Inr s1 \<Rightarrow>
             let c = chunk_state_init (key s1) (flags (chunk s1))
             in Inr (s1\<lparr>chunk := c\<lparr>chunk_counter := chunk_counter c + 1\<rparr>\<rparr>))"

text \<open>
  \<open>want\<close> in \<open>blake3_hasher_update\<close>: the operands are promoted to \<open>int\<close>, the result is
  converted to \<open>size_t\<close>.
\<close>

definition hasher_want :: "blake3_hasher \<Rightarrow> nat" where
  "hasher_want self =
     nat ((int BLAKE3_CHUNK_LEN -
           (int (unat (blocks_compressed (chunk self))) * int BLAKE3_BLOCK_LEN +
            int (unat (buf_len (chunk self))))) mod 2 ^ 64)"

text \<open>
  When \<open>take\<close> is 0 the source calls \<open>chunk_state_update\<close> with no bytes and repeats the
  loop in the same state, for ever: the model returns \<open>NoProgress\<close>.
\<close>

function blake3_hasher_update :: "blake3_hasher \<Rightarrow> u8 list \<Rightarrow> error + blake3_hasher" where
  "blake3_hasher_update self input =
     (if input = [] then Inr self
      else
        (case (if hasher_chunk_full self then hasher_complete_chunk self else Inr self) of
           Inl e \<Rightarrow> Inl e
         | Inr s1 \<Rightarrow>
             let tk = min (length input) (hasher_want s1)
             in if tk = 0 then Inl NoProgress
                else
                  (case chunk_state_update (chunk s1) (take tk input) of
                     Inl e \<Rightarrow> Inl e
                   | Inr c \<Rightarrow> blake3_hasher_update (s1\<lparr>chunk := c\<rparr>) (drop tk input))))"
  by pat_completeness auto
termination
  by (relation "measure (\<lambda>(self, input). length input)") auto

declare blake3_hasher_update.simps [simp del]

text \<open>The loop of \<open>blake3_hasher_finalize\<close> over the stack, from \<open>i = cv_stack_len\<close> down.\<close>

fun finalize_parents :: "u32 list \<Rightarrow> u8 \<Rightarrow> u32 list \<Rightarrow> nat \<Rightarrow> u32 list \<Rightarrow> error + u32 list" where
  "finalize_parents k fl stack 0 parent_nodes = Inr parent_nodes"
| "finalize_parents k fl stack (Suc i) parent_nodes =
     (case cv_stack_read stack (int i) of
        Inl e \<Rightarrow> Inl e
      | Inr entry \<Rightarrow>
          (case parent_cv (words_bytes entry @ words_bytes parent_nodes) k fl of
             Inl e \<Rightarrow> Inl e
           | Inr p \<Rightarrow> finalize_parents k fl stack i p))"

text \<open>
  \<open>blake3_hasher_finalize\<close> passes the 32-byte array \<open>parent_nodes\<close> as the 64-byte block of
  \<open>blake3_compress_xof\<close>, which reads all 64 bytes. The 32 bytes it reads past the end of
  the array are whatever the stack frame holds there; the model takes them as the parameter
  \<open>past_end\<close>, a function of the output block counter of the call.

  \<open>out\<close> is the caller's buffer; the result is the buffer after the call.
\<close>

function finalize_xof_loop ::
  "(nat \<Rightarrow> u8 list) \<Rightarrow> u32 list \<Rightarrow> u8 \<Rightarrow> nat \<Rightarrow> nat \<Rightarrow> u8 list \<Rightarrow> error + u8 list" where
  "finalize_xof_loop past_end parent_nodes fl output_block_counter out_len out =
     (if out_len > 64 then
        let wide_buf = blake3_compress_xof parent_nodes
                         (words_bytes parent_nodes @ past_end output_block_counter) 32
                         (of_nat output_block_counter) fl;
            this_block_len = (if out_len > 64 then 64 else out_len)
        in case memcpy out (64 * output_block_counter) (take this_block_len wide_buf) of
             Inl e \<Rightarrow> Inl e
           | Inr out' \<Rightarrow>
               finalize_xof_loop past_end parent_nodes fl (output_block_counter + 1)
                 (out_len - this_block_len) out'
      else Inr out)"
  by pat_completeness auto
termination
  by (relation "measure (\<lambda>(past_end, parent_nodes, fl, c, out_len, out). out_len)") auto

declare finalize_xof_loop.simps [simp del]

definition blake3_hasher_finalize ::
  "(nat \<Rightarrow> u8 list) \<Rightarrow> blake3_hasher \<Rightarrow> u8 list \<Rightarrow> nat \<Rightarrow> error + u8 list" where
  "blake3_hasher_finalize past_end self out out_len =
     (let chunk_cv = chunk_state_output (chunk self);
          chunk_cv_words = map (load32 chunk_cv) [0..<8]
      in case finalize_parents (key self) (flags (chunk self)) (cv_stack self)
                (unat (cv_stack_len self)) chunk_cv_words of
           Inl e \<Rightarrow> Inl e
         | Inr parent_nodes \<Rightarrow>
             let fl = flags (chunk self) OR ROOT;
                 wide_buf = blake3_compress_xof parent_nodes
                              (words_bytes parent_nodes @ past_end 0) 32 0 fl
             in case memcpy out 0 (take (if out_len < 64 then out_len else 64) wide_buf) of
                  Inl e \<Rightarrow> Inl e
                | Inr out1 \<Rightarrow>
                    if out_len > 64 then finalize_xof_loop past_end parent_nodes fl 1 out_len out1
                    else Inr out1)"

definition blake3 :: "(nat \<Rightarrow> u8 list) \<Rightarrow> u8 list \<Rightarrow> u8 list \<Rightarrow> nat \<Rightarrow> error + u8 list" where
  "blake3 past_end input out out_len =
     (case blake3_hasher_update blake3_hasher_init input of
        Inl e \<Rightarrow> Inl e
      | Inr hasher \<Rightarrow> blake3_hasher_finalize past_end hasher out out_len)"

text \<open>
  A client that feeds the input in pieces: one call of \<open>blake3_hasher_update\<close> per piece,
  in order, then \<open>blake3_hasher_finalize\<close>.
\<close>

fun blake3_hasher_update_all :: "blake3_hasher \<Rightarrow> u8 list list \<Rightarrow> error + blake3_hasher" where
  "blake3_hasher_update_all self [] = Inr self"
| "blake3_hasher_update_all self (piece # pieces) =
     (case blake3_hasher_update self piece of
        Inl e \<Rightarrow> Inl e
      | Inr self' \<Rightarrow> blake3_hasher_update_all self' pieces)"

definition blake3_pieces ::
  "(nat \<Rightarrow> u8 list) \<Rightarrow> u8 list list \<Rightarrow> u8 list \<Rightarrow> nat \<Rightarrow> error + u8 list" where
  "blake3_pieces past_end pieces out out_len =
     (case blake3_hasher_update_all blake3_hasher_init pieces of
        Inl e \<Rightarrow> Inl e
      | Inr hasher \<Rightarrow> blake3_hasher_finalize past_end hasher out out_len)"

section \<open>Sequential hash: \<open>blake2b.c\<close>\<close>

definition blake2b_IV :: "u64 list" where
  "blake2b_IV =
     [0x6a09e667f3bcc908, 0xbb67ae8584caa73b,
      0x3c6ef372fe94f82b, 0xa54ff53a5f1d36f1,
      0x510e527fade682d1, 0x9b05688c2b3e6c1f,
      0x1f83d9abfb41bd6b, 0x5be0cd19137e2179]"

definition blake2b_sigma :: "nat list list" where
  "blake2b_sigma =
     [[0, 1, 2, 3, 4, 5, 6, 7, 8, 9, 10, 11, 12, 13, 14, 15],
      [14, 10, 4, 8, 9, 15, 13, 6, 1, 12, 0, 2, 11, 7, 5, 3],
      [11, 8, 12, 0, 5, 2, 15, 13, 10, 14, 3, 6, 7, 1, 9, 4],
      [7, 9, 3, 1, 13, 12, 11, 14, 2, 6, 5, 10, 4, 0, 15, 8],
      [9, 0, 5, 7, 2, 4, 10, 15, 14, 1, 11, 12, 6, 8, 3, 13],
      [2, 12, 6, 10, 0, 11, 8, 3, 4, 13, 7, 5, 15, 14, 1, 9],
      [12, 5, 1, 15, 14, 13, 4, 10, 0, 7, 6, 3, 9, 2, 8, 11],
      [13, 11, 7, 14, 12, 1, 3, 9, 5, 0, 15, 4, 8, 6, 2, 10],
      [6, 15, 14, 9, 11, 3, 0, 8, 12, 2, 13, 7, 1, 4, 10, 5],
      [10, 2, 8, 4, 7, 6, 1, 5, 15, 11, 9, 14, 3, 12, 13, 0],
      [0, 1, 2, 3, 4, 5, 6, 7, 8, 9, 10, 11, 12, 13, 14, 15],
      [14, 10, 4, 8, 9, 15, 13, 6, 1, 12, 0, 2, 11, 7, 5, 3]]"

definition store64 :: "u64 \<Rightarrow> u8 list" where
  "store64 w =
     [ucast w, ucast (drop_bit 8 w), ucast (drop_bit 16 w), ucast (drop_bit 24 w),
      ucast (drop_bit 32 w), ucast (drop_bit 40 w), ucast (drop_bit 48 w),
      ucast (drop_bit 56 w)]"

definition rotr64 :: "u64 \<Rightarrow> nat \<Rightarrow> u64" where
  "rotr64 w c = (drop_bit c w) OR (push_bit (64 - c) w)"

definition load64 :: "u8 list \<Rightarrow> nat \<Rightarrow> u64" where
  "load64 block i =
     (ucast (block ! (8 * i + 0))) OR
     (push_bit 8 (ucast (block ! (8 * i + 1)))) OR
     (push_bit 16 (ucast (block ! (8 * i + 2)))) OR
     (push_bit 24 (ucast (block ! (8 * i + 3)))) OR
     (push_bit 32 (ucast (block ! (8 * i + 4)))) OR
     (push_bit 40 (ucast (block ! (8 * i + 5)))) OR
     (push_bit 48 (ucast (block ! (8 * i + 6)))) OR
     (push_bit 56 (ucast (block ! (8 * i + 7))))"

text \<open>The macro \<open>G(r,i,a,b,c,d)\<close>; \<open>a\<close>, \<open>b\<close>, \<open>c\<close>, \<open>d\<close> are the indices into \<open>v\<close>.\<close>

definition G :: "u64 list \<Rightarrow> nat \<Rightarrow> nat \<Rightarrow> u64 list \<Rightarrow> nat \<Rightarrow> nat \<Rightarrow> nat \<Rightarrow> nat \<Rightarrow> u64 list" where
  "G m r i v a b c d =
     (let v1 = v[a := v ! a + v ! b + m ! (blake2b_sigma ! r ! (2 * i + 0))];
          v2 = v1[d := rotr64 (v1 ! d XOR v1 ! a) 32];
          v3 = v2[c := v2 ! c + v2 ! d];
          v4 = v3[b := rotr64 (v3 ! b XOR v3 ! c) 24];
          v5 = v4[a := v4 ! a + v4 ! b + m ! (blake2b_sigma ! r ! (2 * i + 1))];
          v6 = v5[d := rotr64 (v5 ! d XOR v5 ! a) 16];
          v7 = v6[c := v6 ! c + v6 ! d]
      in v7[b := rotr64 (v7 ! b XOR v7 ! c) 63])"

text \<open>
  The state. The fields have the names of the source with the prefix \<open>S_\<close>; \<open>size_t\<close>
  values are natural numbers.
\<close>

record blake2b_state =
  S_h :: "u64 list"
  S_t :: "u64 list"
  S_f :: "u64 list"
  S_buf :: "u8 list"
  S_buflen :: nat
  S_outlen :: nat
  S_last_node :: u8

definition blake2b_round :: "u64 list \<Rightarrow> nat \<Rightarrow> u64 list \<Rightarrow> u64 list" where
  "blake2b_round m i v =
     (let v1 = G m i 0 v 0 4 8 12;
          v2 = G m i 1 v1 1 5 9 13;
          v3 = G m i 2 v2 2 6 10 14;
          v4 = G m i 3 v3 3 7 11 15;
          v5 = G m i 4 v4 0 5 10 15;
          v6 = G m i 5 v5 1 6 11 12;
          v7 = G m i 6 v6 2 7 8 13
      in G m i 7 v7 3 4 9 14)"

definition blake2b_compress :: "blake2b_state \<Rightarrow> u8 list \<Rightarrow> blake2b_state" where
  "blake2b_compress S block =
     (let m = map (load64 block) [0..<16];
          v = take 8 (S_h S) @
              [blake2b_IV ! 0, blake2b_IV ! 1, blake2b_IV ! 2, blake2b_IV ! 3,
               blake2b_IV ! 4 XOR S_t S ! 0, blake2b_IV ! 5 XOR S_t S ! 1,
               blake2b_IV ! 6 XOR S_f S ! 0, blake2b_IV ! 7 XOR S_f S ! 1];
          v' = fold (blake2b_round m) [0..<12] v
      in S\<lparr>S_h := map (\<lambda>i. S_h S ! i XOR v' ! i XOR v' ! (i + 8)) [0..<8]\<rparr>)"

text \<open>
  \<open>blake2b_init\<close> and \<open>blake2b_final\<close> return \<open>-1\<close> for a bad length: \<open>InvalidLength\<close> and
  \<open>LengthMismatch\<close> in the model.
\<close>

definition blake2b_init :: "nat \<Rightarrow> error + blake2b_state" where
  "blake2b_init outlen =
     (if outlen = 0 \<or> outlen > 64 then Inl InvalidLength
      else Inr \<lparr>S_h = blake2b_IV, S_t = [0, 0], S_f = [0, 0], S_buf = replicate 128 0,
                S_buflen = 0, S_outlen = outlen, S_last_node = 0\<rparr>)"

text \<open>\<open>S->t[0] += inc; if (S->t[0] < inc) S->t[1]++;\<close>\<close>

definition blake2b_increment_counter :: "blake2b_state \<Rightarrow> u64 \<Rightarrow> blake2b_state" where
  "blake2b_increment_counter S inc =
     (let t0 = S_t S ! 0 + inc
      in S\<lparr>S_t := [t0, if t0 < inc then S_t S ! 1 + 1 else S_t S ! 1]\<rparr>)"

text \<open>The loop \<open>while (inlen > 128)\<close> of \<open>blake2b_update\<close>, on the input that is left.\<close>

function blake2b_update_blocks :: "blake2b_state \<Rightarrow> u8 list \<Rightarrow> blake2b_state \<times> u8 list" where
  "blake2b_update_blocks S input =
     (if length input > 128
      then blake2b_update_blocks
             (blake2b_compress (blake2b_increment_counter S 128) (take 128 input))
             (drop 128 input)
      else (S, input))"
  by pat_completeness auto
termination
  by (relation "measure (\<lambda>(S, input). length input)") auto

declare blake2b_update_blocks.simps [simp del]

text \<open>The final \<open>if (inlen > 0)\<close> of \<open>blake2b_update\<close>.\<close>

definition blake2b_update_rest :: "blake2b_state \<Rightarrow> u8 list \<Rightarrow> error + blake2b_state" where
  "blake2b_update_rest S input =
     (if length input > 0 then
        (case memcpy (S_buf S) (S_buflen S) input of
           Inl e \<Rightarrow> Inl e
         | Inr b \<Rightarrow> Inr (S\<lparr>S_buf := b, S_buflen := S_buflen S + length input\<rparr>))
      else Inr S)"

text \<open>
  \<open>fill\<close> is a \<open>size_t\<close>: the subtraction wraps. A \<open>fill\<close> beyond the input makes \<open>memcpy\<close>
  read past its end.
\<close>

definition blake2b_update :: "blake2b_state \<Rightarrow> u8 list \<Rightarrow> error + blake2b_state" where
  "blake2b_update S input =
     (if S_buflen S + length input > 128 then
        let fill = nat ((128 - int (S_buflen S)) mod 2 ^ 64)
        in if fill > length input then Inl OutOfBounds
           else
             (case memcpy (S_buf S) (S_buflen S) (take fill input) of
                Inl e \<Rightarrow> Inl e
              | Inr b \<Rightarrow>
                  let S1 = blake2b_increment_counter (S\<lparr>S_buf := b\<rparr>) 128;
                      S2 = blake2b_compress S1 (S_buf S1);
                      (S3, rest) = blake2b_update_blocks (S2\<lparr>S_buflen := 0\<rparr>) (drop fill input)
                  in blake2b_update_rest S3 rest)
      else blake2b_update_rest S input)"

text \<open>
  \<open>blake2b_final\<close> changes the state and writes \<open>S->outlen\<close> bytes of its 64-byte local
  \<open>buffer\<close> to \<open>out\<close>; the result is the state and the caller's buffer after the call.
\<close>

definition blake2b_final :: "blake2b_state \<Rightarrow> u8 list \<Rightarrow> nat \<Rightarrow> error + (blake2b_state \<times> u8 list)" where
  "blake2b_final S out outlen =
     (if S_outlen S \<noteq> outlen then Inl LengthMismatch
      else
        let S1 = (if S_buflen S > 0 then
                    let padded = (if S_buflen S < 128
                                  then take (S_buflen S) (S_buf S) @
                                       replicate (128 - S_buflen S) 0
                                  else S_buf S);
                        Sa = blake2b_increment_counter (S\<lparr>S_buf := padded\<rparr>) (of_nat (S_buflen S));
                        Sb = Sa\<lparr>S_f := (S_f Sa)[0 := - 1]\<rparr>
                    in blake2b_compress Sb (S_buf Sb)
                  else S);
            buffer = concat (map store64 (take 8 (S_h S1)))
        in if S_outlen S1 > length buffer then Inl OutOfBounds
           else
             (case memcpy out 0 (take (S_outlen S1) buffer) of
                Inl e \<Rightarrow> Inl e
              | Inr out' \<Rightarrow> Inr (S1, out')))"

text \<open>
  The call sequence of \<open>hash\<close> in \<open>hash.c\<close>, for any output length: \<open>blake2b_init\<close>,
  \<open>blake2b_update\<close> with the whole input, \<open>blake2b_final\<close> into a zeroed array.
\<close>

definition blake2b_oneshot :: "u8 list \<Rightarrow> nat \<Rightarrow> error + (blake2b_state \<times> u8 list)" where
  "blake2b_oneshot input outlen =
     (case blake2b_init outlen of
        Inl e \<Rightarrow> Inl e
      | Inr S \<Rightarrow>
          (case blake2b_update S input of
             Inl e \<Rightarrow> Inl e
           | Inr S1 \<Rightarrow> blake2b_final S1 (replicate outlen 0) outlen))"

section \<open>Digest encoding and single hashes: \<open>detective_core.c\<close>\<close>

definition DETECTIVE_HASH_LEN :: nat where "DETECTIVE_HASH_LEN = 32"

definition hex_digit :: "nat \<Rightarrow> char" where
  "hex_digit n = ''0123456789abcdef'' ! n"

text \<open>\<open>snprintf(hex_out + i * 2, 3, "%02x", bytes[i])\<close> for each \<open>i < len\<close>.\<close>

definition bytes_to_hex :: "u8 list \<Rightarrow> nat \<Rightarrow> string" where
  "bytes_to_hex bytes len =
     concat (map (\<lambda>i. [hex_digit (unat (bytes ! i) div 16), hex_digit (unat (bytes ! i) mod 16)])
               [0..<len])"

text \<open>
  A C string is the list of its characters before the terminating NUL, a pointer that may
  be \<open>NULL\<close> is an \<open>option\<close>, and \<open>malloc_ok\<close> says whether the allocation of the result
  succeeds. The local array \<open>hash\<close> is not initialised by the source: \<open>hash_garbage i\<close> is
  what \<open>hash[i]\<close> holds when \<open>blake3\<close> is called.
\<close>

definition string_bytes :: "string \<Rightarrow> u8 list" where
  "string_bytes s = map (\<lambda>c. of_nat (of_char c)) s"

definition blake3_hash_string ::
  "(nat \<Rightarrow> u8 list) \<Rightarrow> (nat \<Rightarrow> u8) \<Rightarrow> bool \<Rightarrow> string option \<Rightarrow> error + string option" where
  "blake3_hash_string past_end hash_garbage malloc_ok input =
     (case input of
        None \<Rightarrow> Inr None
      | Some s \<Rightarrow>
          (case blake3 past_end (string_bytes s) (map hash_garbage [0..<DETECTIVE_HASH_LEN])
                  DETECTIVE_HASH_LEN of
             Inl e \<Rightarrow> Inl e
           | Inr hash \<Rightarrow>
               if malloc_ok then Inr (Some (bytes_to_hex hash DETECTIVE_HASH_LEN))
               else Inr None))"


section \<open>Hash comparison and batch matching: \<open>detective_core.c\<close>\<close>

text \<open>
  The counts and distances, C \<open>int\<close> values, are integers of the model. A finite \<open>double\<close> is
  the real number it stands for, and every operation on doubles is the exact operation
  followed by \<open>double_round\<close>, the rounding of IEEE 754 binary64 to the nearest value with a
  53-bit significand, ties to even. The exponent is not bounded in \<open>double_round\<close>: the
  values rounded here are 0 or of a magnitude between \<open>2 ^ -53\<close> and \<open>2 ^ 68\<close>, where
  binary64 neither overflows nor is subnormal.
\<close>

function bit_length :: "int \<Rightarrow> int" where
  "bit_length n = (if n \<le> 0 then 0 else 1 + bit_length (n div 2))"
  by pat_completeness auto
termination
  by (relation "measure nat") auto

declare bit_length.simps [simp del]

text \<open>For \<open>x > 0\<close>, the integer \<open>e\<close> with \<open>2 ^ e \<le> x < 2 ^ (e + 1)\<close>.\<close>

definition floor_log2 :: "real \<Rightarrow> int" where
  "floor_log2 x =
     (if 1 \<le> x then bit_length \<lfloor>x\<rfloor> - 1
      else - bit_length (\<lceil>1 / x\<rceil> - 1))"

definition round_half_even :: "real \<Rightarrow> int" where
  "round_half_even m =
     (let f = \<lfloor>m\<rfloor>; r = m - of_int f
      in if r < 1 / 2 then f
         else if 1 / 2 < r then f + 1
         else if even f then f else f + 1)"

definition double_round :: "real \<Rightarrow> real" where
  "double_round x =
     (if x = 0 then 0
      else
        let e = floor_log2 \<bar>x\<bar>
        in if 52 \<le> e
           then of_int (round_half_even (x / 2 ^ nat (e - 52))) * 2 ^ nat (e - 52)
           else of_int (round_half_even (x * 2 ^ nat (52 - e))) / 2 ^ nat (52 - e))"

text \<open>
  \<open>(int)(hash_len * 8)\<close>: the product of two \<open>size_t\<close> values, cut to the 32 bits of an
  \<open>int\<close>.
\<close>

definition total_bits_of :: "nat \<Rightarrow> int" where
  "total_bits_of hash_len = sint (ucast ((of_nat hash_len :: u64) * 8) :: 32 word)"

text \<open>
  \<open>1.0 - ((double)distance / total_bits)\<close> for \<open>total_bits \<noteq> 0\<close>: the conversion of
  \<open>distance\<close>, the division and the subtraction each round; the conversion of the \<open>int\<close>
  \<open>total_bits\<close> is exact.
\<close>

definition double_similarity :: "int \<Rightarrow> int \<Rightarrow> real" where
  "double_similarity distance total_bits =
     double_round (1 - double_round (double_round (real_of_int distance) / real_of_int total_bits))"

function count_bits_loop :: "u8 \<Rightarrow> int \<Rightarrow> int" where
  "count_bits_loop byte cnt =
     (if byte \<noteq> 0 then count_bits_loop (drop_bit 1 byte) (cnt + uint (byte AND 1))
      else cnt)"
  by pat_completeness auto

lemma u8_drop_bit_1_less: "(w :: u8) \<noteq> 0 \<Longrightarrow> unat (drop_bit 1 w) < unat w"
proof -
  assume "w \<noteq> 0"
  then have "0 < unat w" by (simp add: unat_gt_0)
  then show ?thesis by (simp add: drop_bit_eq_div unat_div)
qed

termination count_bits_loop
  by (relation "measure (\<lambda>(byte, cnt). unat byte)") (auto simp: u8_drop_bit_1_less [simplified])

declare count_bits_loop.simps [simp del]

definition count_bits :: "u8 \<Rightarrow> int" where
  "count_bits byte = count_bits_loop byte 0"

definition hash_compare :: "string option \<Rightarrow> string option \<Rightarrow> int" where
  "hash_compare hash1 hash2 =
     (case (hash1, hash2) of
        (Some s1, Some s2) \<Rightarrow> if s1 = s2 then 0 else 1
      | _ \<Rightarrow> 1)"

definition hash_hamming_distance :: "u8 list option \<Rightarrow> u8 list option \<Rightarrow> nat \<Rightarrow> int" where
  "hash_hamming_distance hash1 hash2 len =
     (case (hash1, hash2) of
        (Some h1, Some h2) \<Rightarrow>
          fold (\<lambda>i distance. distance + count_bits (h1 ! i XOR h2 ! i)) [0..<len] 0
      | _ \<Rightarrow> - 1)"

text \<open>
  The scan of \<open>batch_compare_hash\<close>: \<open>temp\<close> is the filled part of \<open>temp_matches\<close>, so that
  \<open>count\<close> is its length.
\<close>

function batch_compare_loop :: "string option \<Rightarrow> string option list \<Rightarrow> int \<Rightarrow> int \<Rightarrow> int list \<Rightarrow> int list" where
  "batch_compare_loop target_hash db_hashes db_count i temp =
     (if i < db_count then
        batch_compare_loop target_hash db_hashes db_count (i + 1)
          (if db_hashes ! nat i \<noteq> None \<and> hash_compare target_hash (db_hashes ! nat i) = 0
           then temp @ [i] else temp)
      else temp)"
  by pat_completeness auto
termination
  by (relation "measure (\<lambda>(t, db, db_count, i, temp). nat (db_count - i))") auto

declare batch_compare_loop.simps [simp del]

text \<open>
  The result of \<open>batch_compare_hash\<close> is the returned array (\<open>None\<close> for \<open>NULL\<close>) and the
  value stored through \<open>match_count\<close> (\<open>None\<close> when nothing is stored). The flag
  \<open>match_count\<close> says whether that pointer is not \<open>NULL\<close>; \<open>malloc_ok\<close> says whether the
  allocation of \<open>temp_matches\<close> succeeds. \<open>realloc\<close> keeps the contents whether it succeeds
  or not.
\<close>

definition batch_compare_hash ::
  "bool \<Rightarrow> string option \<Rightarrow> string option list option \<Rightarrow> int \<Rightarrow> bool \<Rightarrow>
   int list option \<times> int option" where
  "batch_compare_hash malloc_ok target_hash db_hashes db_count match_count =
     (if target_hash = None \<or> db_hashes = None \<or> db_count \<le> 0 \<or> \<not> match_count
      then (None, if match_count then Some 0 else None)
      else if \<not> malloc_ok then (None, Some 0)
      else
        let temp_matches = batch_compare_loop target_hash (the db_hashes) db_count 0 [];
            cnt = int (length temp_matches)
        in if cnt = 0 then (None, Some cnt) else (Some temp_matches, Some cnt))"

record SimilarityResult =
  index :: int
  similarity :: real

text \<open>
  The scan of \<open>batch_similarity_search\<close>. The threshold is a finite double. When
  \<open>total_bits\<close> is 0 the quotient is infinite or not a number, the similarity is minus
  infinity or not a number, and the test \<open>similarity >= threshold\<close> is false.
\<close>

function batch_similarity_loop ::
  "u8 list option \<Rightarrow> nat \<Rightarrow> u8 list option list \<Rightarrow> int \<Rightarrow> real \<Rightarrow> int \<Rightarrow> int \<Rightarrow>
   SimilarityResult list \<Rightarrow> SimilarityResult list" where
  "batch_similarity_loop target_hash hash_len db_hashes db_count threshold total_bits i temp =
     (if i < db_count then
        batch_similarity_loop target_hash hash_len db_hashes db_count threshold total_bits (i + 1)
          (if db_hashes ! nat i = None then temp
           else
             let distance = hash_hamming_distance target_hash (db_hashes ! nat i) hash_len
             in if distance < 0 then temp
                else if total_bits = 0 then temp
                else
                  let sim = double_similarity distance total_bits
                  in if sim \<ge> threshold then temp @ [\<lparr>index = i, similarity = sim\<rparr>]
                     else temp)
      else temp)"
  by pat_completeness auto
termination
  by (relation "measure (\<lambda>(t, n, db, db_count, th, tb, i, temp). nat (db_count - i))") auto

declare batch_similarity_loop.simps [simp del]

text \<open>The selection sort: the inner loop finds \<open>max_idx\<close>, the outer loop swaps.\<close>

function sort_find_max :: "SimilarityResult list \<Rightarrow> nat \<Rightarrow> nat \<Rightarrow> nat \<Rightarrow> nat" where
  "sort_find_max temp cnt j max_idx =
     (if j < cnt then
        sort_find_max temp cnt (j + 1)
          (if similarity (temp ! j) > similarity (temp ! max_idx) then j else max_idx)
      else max_idx)"
  by pat_completeness auto
termination
  by (relation "measure (\<lambda>(temp, cnt, j, max_idx). cnt - j)") auto

declare sort_find_max.simps [simp del]

function selection_sort :: "SimilarityResult list \<Rightarrow> nat \<Rightarrow> nat \<Rightarrow> SimilarityResult list" where
  "selection_sort temp cnt i =
     (if i + 1 < cnt then
        let max_idx = sort_find_max temp cnt (i + 1) i;
            temp' = (if max_idx \<noteq> i then temp[i := temp ! max_idx, max_idx := temp ! i]
                     else temp)
        in selection_sort temp' cnt (i + 1)
      else temp)"
  by pat_completeness auto
termination
  by (relation "measure (\<lambda>(temp, cnt, i). cnt - i)") auto

declare selection_sort.simps [simp del]

definition batch_similarity_search ::
  "bool \<Rightarrow> u8 list option \<Rightarrow> nat \<Rightarrow> u8 list option list option \<Rightarrow> int \<Rightarrow> real \<Rightarrow> bool \<Rightarrow>
   SimilarityResult list option \<times> int option" where
  "batch_similarity_search malloc_ok target_hash hash_len db_hashes db_count threshold result_count =
     (if target_hash = None \<or> db_hashes = None \<or> db_count \<le> 0 \<or> \<not> result_count \<or> hash_len = 0
      then (None, if result_count then Some 0 else None)
      else if \<not> malloc_ok then (None, Some 0)
      else
        let total_bits = total_bits_of hash_len;
            temp = batch_similarity_loop target_hash hash_len (the db_hashes) db_count threshold
                     total_bits 0 [];
            cnt = length temp
        in if cnt = 0 then (None, Some 0)
           else (Some (selection_sort temp cnt 0), Some (int cnt)))"

text \<open>
  The order that a stable sort would keep: whether entries of equal score come in the order
  of their candidate indices.
\<close>

fun ties_in_index_order :: "SimilarityResult list \<Rightarrow> bool" where
  "ties_in_index_order [] = True"
| "ties_in_index_order (r # rs) =
     (list_all (\<lambda>r'. if similarity r' = similarity r then index r < index r' else True) rs \<and>
      ties_in_index_order rs)"

section \<open>Published reference digests\<close>

text \<open>
  The digests of the empty input that the BLAKE3 and BLAKE2b specifications publish: BLAKE3
  with 32 bytes of output, and BLAKE2b-512. For the ASCII string \<open>hello world\<close> the header
  \<open>detective_core.h\<close> documents the start of the expected hex string itself.
\<close>

definition documented_hello_world_prefix :: string where
  "documented_hello_world_prefix = ''d74981''"

text \<open>
  The two published digests.
\<close>

definition blake3_reference_empty :: "u8 list" where
  "blake3_reference_empty =
     [0xaf, 0x13, 0x49, 0xb9, 0xf5, 0xf9, 0xa1, 0xa6,
      0xa0, 0x40, 0x4d, 0xea, 0x36, 0xdc, 0xc9, 0x49,
      0x9b, 0xcb, 0x25, 0xc9, 0xad, 0xc1, 0x12, 0xb7,
      0xcc, 0x9a, 0x93, 0xca, 0xe4, 0x1f, 0x32, 0x62]"

definition blake2b_reference_empty :: "u8 list" where
  "blake2b_reference_empty =
     [0x78, 0x6a, 0x02, 0xf7, 0x42, 0x01, 0x59, 0x03,
      0xc6, 0xc6, 0xfd, 0x85, 0x25, 0x52, 0xd2, 0x72,
      0x91, 0x2f, 0x47, 0x40, 0xe1, 0x58, 0x47, 0x61,
      0x8a, 0x86, 0xe2, 0x17, 0xf7, 0x1f, 0x54, 0x19,
      0xd2, 0x5e, 0x10, 0x31, 0xaf, 0xee, 0x58, 0x53,
      0x13, 0x89, 0x64, 0x44, 0x93, 0x4e, 0xb0, 0x4b,
      0x90, 0x3a, 0x68, 0x5b, 0x14, 0x48, 0xb7, 0x55,
      0xd5, 0x6f, 0x70, 0x1a, 0xfe, 0x9b, 0xe2, 0xce]"

section \<open>Properties of the tree hash\<close>

subsection \<open>Chunk state: buffer arithmetic and streaming\<close>

definition chunk_state_len :: "blake3_chunk_state \<Rightarrow> nat" where
  "chunk_state_len c = unat (blocks_compressed c) * 64 + unat (buf_len c)"

definition wf_chunk :: "blake3_chunk_state \<Rightarrow> bool" where
  "wf_chunk c \<longleftrightarrow> unat (buf_len c) \<le> 64 \<and> length (buf c) = 64"

definition chunk_fill :: "blake3_chunk_state \<Rightarrow> u8 list \<Rightarrow> blake3_chunk_state" where
  "chunk_fill c bs =
     c\<lparr>buf := take (unat (buf_len c)) (buf c) @ bs @ drop (unat (buf_len c) + length bs) (buf c),
       buf_len := buf_len c + of_nat (length bs)\<rparr>"

lemma u8_unat_add_of_nat: "unat (w :: u8) + n \<le> 64 \<Longrightarrow> unat (w + of_nat n) = unat w + n"
  by (simp add: unat_word_ariths unat_of_nat)

lemma wf_chunk_flush: "wf_chunk c \<Longrightarrow> wf_chunk (chunk_flush c)"
  by (simp add: wf_chunk_def chunk_flush_def Let_def)

lemma size_t_sub_small:
  fixes n m :: nat
  assumes "n \<le> m" "m \<le> 1024"
  shows "nat ((int m - int n) mod 2 ^ 64) = m - n"
proof -
  have "(int m - int n) mod 2 ^ 64 = int m - int n"
    using assms by (intro mod_pos_pos_trivial) auto
  then show ?thesis using assms by simp
qed

lemma chunk_want_wf: "wf_chunk c \<Longrightarrow> chunk_want c = 64 - unat (buf_len c)"
  using size_t_sub_small [of "unat (buf_len c)" 64]
  by (simp add: wf_chunk_def chunk_want_def BLAKE3_BLOCK_LEN_def)

lemma chunk_flush_buf_len:
  "wf_chunk c \<Longrightarrow> unat (buf_len (chunk_flush c)) = (if unat (buf_len c) = 64 then 0 else unat (buf_len c))"
  by (simp add: chunk_flush_def Let_def BLAKE3_BLOCK_LEN_def)

lemma wf_chunk_fill:
  "wf_chunk c \<Longrightarrow> unat (buf_len c) + length bs \<le> 64 \<Longrightarrow> wf_chunk (chunk_fill c bs)"
  by (simp add: wf_chunk_def chunk_fill_def u8_unat_add_of_nat)

lemma chunk_fill_buf_len:
  "unat (buf_len c) + length bs \<le> 64 \<Longrightarrow> unat (buf_len (chunk_fill c bs)) = unat (buf_len c) + length bs"
  by (simp add: chunk_fill_def u8_unat_add_of_nat)

lemma chunk_state_update_step:
  assumes "wf_chunk c" "input \<noteq> []"
  shows "chunk_state_update c input =
           chunk_state_update
             (chunk_fill (chunk_flush c) (take (64 - unat (buf_len (chunk_flush c))) input))
             (drop (64 - unat (buf_len (chunk_flush c))) input)"
proof -
  let ?s = "chunk_flush c"
  have w: "wf_chunk ?s" using assms by (simp add: wf_chunk_flush)
  then have b: "unat (buf_len ?s) \<le> 64" "length (buf ?s) = 64" by (simp_all add: wf_chunk_def)
  show ?thesis
    apply (subst chunk_state_update.simps)
    using assms b
    apply (auto simp add: Let_def chunk_want_wf [OF w] memcpy_def chunk_fill_def min_def)
    done
qed


definition bind_err :: "error + 'a \<Rightarrow> ('a \<Rightarrow> error + 'b) \<Rightarrow> error + 'b" where
  "bind_err r f = (case r of Inl e \<Rightarrow> Inl e | Inr x \<Rightarrow> f x)"

lemma bind_err_simps [simp]: "bind_err (Inl e) f = Inl e" "bind_err (Inr x) f = f x"
  by (simp_all add: bind_err_def)

lemma chunk_fill_append:
  assumes "length (buf c) = 64" "unat (buf_len c) + length xs + length ys \<le> 64"
  shows "chunk_fill (chunk_fill c xs) ys = chunk_fill c (xs @ ys)"
proof -
  have "unat (buf_len c + of_nat (length xs)) = unat (buf_len c) + length xs"
    using assms by (intro u8_unat_add_of_nat) simp
  then show ?thesis
    using assms by (simp add: chunk_fill_def add_ac)
qed

lemma chunk_fill_Nil: "length (buf c) = 64 \<Longrightarrow> unat (buf_len c) \<le> 64 \<Longrightarrow> chunk_fill c [] = c"
  by (simp add: chunk_fill_def)

lemma chunk_flush_idle: "unat (buf_len c) < 64 \<Longrightarrow> chunk_flush c = c"
  by (simp add: chunk_flush_def BLAKE3_BLOCK_LEN_def)

lemma chunk_state_update_append:
  "wf_chunk c \<Longrightarrow>
   chunk_state_update c (xs @ ys) = bind_err (chunk_state_update c xs) (\<lambda>c'. chunk_state_update c' ys)"
proof (induction "length xs" arbitrary: c xs rule: less_induct)
  case less
  show ?case
  proof (cases "xs = []")
    case True
    then show ?thesis by (simp add: chunk_state_update.simps [of _ "[]"])
  next
    case False
    let ?s = "chunk_flush c"
    let ?w = "64 - unat (buf_len ?s)"
    have w: "wf_chunk ?s" using less.prems by (simp add: wf_chunk_flush)
    then have b: "unat (buf_len ?s) \<le> 64" "length (buf ?s) = 64" by (simp_all add: wf_chunk_def)
    have wpos: "0 < ?w" using chunk_want_pos [of c] chunk_want_wf [OF w] by simp
    have stepx: "chunk_state_update c xs =
                   chunk_state_update (chunk_fill ?s (take ?w xs)) (drop ?w xs)"
      using less.prems False by (rule chunk_state_update_step)
    have stepxy: "chunk_state_update c (xs @ ys) =
                   chunk_state_update (chunk_fill ?s (take ?w (xs @ ys))) (drop ?w (xs @ ys))"
      using less.prems False by (intro chunk_state_update_step) simp_all
    show ?thesis
    proof (cases "?w \<le> length xs")
      case True
      have "wf_chunk (chunk_fill ?s (take ?w xs))"
        using w b True by (intro wf_chunk_fill) simp_all
      moreover have "length (drop ?w xs) < length xs"
        using wpos False by (cases xs) auto
      ultimately have "chunk_state_update (chunk_fill ?s (take ?w xs)) (drop ?w xs @ ys) =
          bind_err (chunk_state_update (chunk_fill ?s (take ?w xs)) (drop ?w xs))
            (\<lambda>c'. chunk_state_update c' ys)"
        by (intro less.hyps)
      then show ?thesis
        using True by (simp add: stepx stepxy)
    next
      case short: False
      let ?s2 = "chunk_fill ?s xs"
      have x: "chunk_state_update c xs = Inr ?s2"
        using short by (simp add: stepx chunk_state_update.simps [of _ "[]"])
      have w2: "wf_chunk ?s2"
        using w b short by (intro wf_chunk_fill) simp_all
      have bl2: "unat (buf_len ?s2) = unat (buf_len ?s) + length xs"
        using b short by (intro chunk_fill_buf_len) simp
      show ?thesis
      proof (cases "ys = []")
        case True
        then show ?thesis by (simp add: x chunk_state_update.simps [of _ "[]"])
      next
        case ys: False
        have idle: "chunk_flush ?s2 = ?s2"
          using bl2 short by (intro chunk_flush_idle) simp
        have "chunk_state_update ?s2 ys =
                chunk_state_update (chunk_fill ?s2 (take (?w - length xs) ys))
                  (drop (?w - length xs) ys)"
          using chunk_state_update_step [OF w2 ys] bl2 by (simp add: idle)
        also have "chunk_fill ?s2 (take (?w - length xs) ys) =
                     chunk_fill ?s (xs @ take (?w - length xs) ys)"
          using b short by (intro chunk_fill_append) simp_all
        finally show ?thesis
          using short by (simp add: x stepxy)
      qed
    qed
  qed
qed


definition chunk_ok :: "blake3_chunk_state \<Rightarrow> bool" where
  "chunk_ok c \<longleftrightarrow>
     wf_chunk c \<and> chunk_state_len c \<le> 1024 \<and> (buf_len c = 0 \<longrightarrow> blocks_compressed c = 0)"

lemma chunk_flush_len:
  assumes "chunk_state_len c \<le> 1024"
  shows "chunk_state_len (chunk_flush c) = chunk_state_len c"
proof (cases "unat (buf_len c) = 64")
  case True
  then have "unat (blocks_compressed c) \<le> 15"
    using assms by (simp add: chunk_state_len_def)
  then have "unat (blocks_compressed c + 1) = unat (blocks_compressed c) + 1"
    by (simp add: unat_word_ariths)
  then show ?thesis
    using True by (simp add: chunk_state_len_def chunk_flush_def BLAKE3_BLOCK_LEN_def Let_def)
next
  case False
  then show ?thesis by (simp add: chunk_flush_def BLAKE3_BLOCK_LEN_def)
qed

lemma chunk_flush_fields [simp]:
  "flags (chunk_flush c) = flags c" "chunk_counter (chunk_flush c) = chunk_counter c"
  "length (buf (chunk_flush c)) = length (buf c)"
  by (simp_all add: chunk_flush_def Let_def)

lemma chunk_fill_fields [simp]:
  "flags (chunk_fill c bs) = flags c" "chunk_counter (chunk_fill c bs) = chunk_counter c"
  "blocks_compressed (chunk_fill c bs) = blocks_compressed c"
  by (simp_all add: chunk_fill_def)

lemma chunk_state_update_ok:
  "chunk_ok c \<Longrightarrow> chunk_state_len c + length xs \<le> 1024 \<Longrightarrow>
   \<exists>c'. chunk_state_update c xs = Inr c' \<and> chunk_ok c' \<and>
        chunk_state_len c' = chunk_state_len c + length xs \<and>
        flags c' = flags c \<and> chunk_counter c' = chunk_counter c"
proof (induction "length xs" arbitrary: c xs rule: less_induct)
  case less
  show ?case
  proof (cases "xs = []")
    case True
    then show ?thesis using less.prems by (simp add: chunk_state_update.simps [of _ "[]"])
  next
    case False
    let ?s = "chunk_flush c"
    let ?w = "64 - unat (buf_len ?s)"
    let ?s2 = "chunk_fill ?s (take ?w xs)"
    have wc: "wf_chunk c" and len: "chunk_state_len c \<le> 1024"
      using less.prems by (simp_all add: chunk_ok_def)
    have w: "wf_chunk ?s" using wc by (simp add: wf_chunk_flush)
    then have b: "unat (buf_len ?s) \<le> 64" "length (buf ?s) = 64" by (simp_all add: wf_chunk_def)
    have wpos: "0 < ?w" using chunk_want_pos [of c] chunk_want_wf [OF w] by simp
    have step: "chunk_state_update c xs = chunk_state_update ?s2 (drop ?w xs)"
      using wc False by (rule chunk_state_update_step)
    have w2: "wf_chunk ?s2" using w b by (intro wf_chunk_fill) simp_all
    have bl2: "unat (buf_len ?s2) = unat (buf_len ?s) + min (length xs) ?w"
      using b by (subst chunk_fill_buf_len) simp_all
    have "0 < min (length xs) ?w" using wpos False by simp
    then have nz: "buf_len ?s2 \<noteq> 0" using bl2 by (metis add_is_0 less_numeral_extra(3) unat_0)
    have len2: "chunk_state_len ?s2 = chunk_state_len c + min (length xs) ?w"
      using bl2 chunk_flush_len [OF len] by (simp add: chunk_state_len_def)
    have ok2: "chunk_ok ?s2"
      using w2 nz len2 less.prems(2) by (simp add: chunk_ok_def)
    have "length (drop ?w xs) < length xs" using wpos False by (cases xs) auto
    moreover have "chunk_state_len ?s2 + length (drop ?w xs) \<le> 1024"
      using len2 less.prems(2) by simp
    ultimately obtain c' where c': "chunk_state_update ?s2 (drop ?w xs) = Inr c'" "chunk_ok c'"
        "chunk_state_len c' = chunk_state_len ?s2 + length (drop ?w xs)"
        "flags c' = flags ?s2" "chunk_counter c' = chunk_counter ?s2"
      using less.hyps [OF _ ok2] by blast
    have "min (length xs) ?w + length (drop ?w xs) = length xs" by auto
    then have "chunk_state_len c' = chunk_state_len c + length xs"
      using c'(3) len2 by simp
    then show ?thesis
      using c' by (intro exI [of _ c']) (simp add: step)
  qed
qed

subsection \<open>Hasher state: one chunk, then the carry loop\<close>

definition hasher_ok :: "blake3_hasher \<Rightarrow> bool" where
  "hasher_ok h \<longleftrightarrow> chunk_ok (chunk h) \<and> cv_stack_len h = 0 \<and> chunk_counter (chunk h) = 0"

lemma chunk_full_arith:
  fixes b l :: nat
  assumes "l \<le> 64" "b * 64 + l \<le> 1024" "l = 0 \<Longrightarrow> b = 0"
  shows "(l = 64 \<and> b = 15) \<longleftrightarrow> b * 64 + l = 1024"
  using assms by arith

lemma hasher_chunk_full_iff:
  assumes "chunk_ok c" "chunk h = c"
  shows "hasher_chunk_full h \<longleftrightarrow> chunk_state_len c = 1024"
proof -
  have z: "unat (buf_len c) = 0 \<Longrightarrow> unat (blocks_compressed c) = 0"
    using assms(1) by (simp add: chunk_ok_def unat_eq_0)
  have "unat (buf_len c) \<le> 64" "unat (blocks_compressed c) * 64 + unat (buf_len c) \<le> 1024"
    using assms(1) by (simp_all add: chunk_ok_def wf_chunk_def chunk_state_len_def)
  then have "(unat (buf_len c) = 64 \<and> unat (blocks_compressed c) = 15) \<longleftrightarrow>
             unat (blocks_compressed c) * 64 + unat (buf_len c) = 1024"
    using z by (rule chunk_full_arith)
  then show ?thesis
    using assms(2)
    by (simp add: hasher_chunk_full_def chunk_state_len_def BLAKE3_BLOCK_LEN_def BLAKE3_CHUNK_LEN_def)
qed

lemma hasher_want_ok:
  assumes "chunk_state_len (chunk h) \<le> 1024"
  shows "hasher_want h = 1024 - chunk_state_len (chunk h)"
  using size_t_sub_small [of "chunk_state_len (chunk h)" 1024] assms
  by (simp add: hasher_want_def chunk_state_len_def BLAKE3_BLOCK_LEN_def BLAKE3_CHUNK_LEN_def)

lemma hasher_complete_chunk_underflow:
  assumes "cv_stack_len h = 0" "chunk_counter (chunk h) = 0"
  shows "hasher_complete_chunk h = Inl StackUnderflow"
  using assms
  by (simp add: hasher_complete_chunk_def add_chunk_cv_def Let_def
        add_chunk_cv_loop.simps [of _ _ _ _ _ 1] cv_stack_read_def)


lemma hasher_ok_chunk_update:
  "hasher_ok h \<Longrightarrow> chunk_ok c' \<Longrightarrow> chunk_counter c' = chunk_counter (chunk h) \<Longrightarrow>
   hasher_ok (h\<lparr>chunk := c'\<rparr>)"
  by (simp add: hasher_ok_def)

lemma hasher_update_Nil: "blake3_hasher_update h [] = Inr h"
  by (simp add: blake3_hasher_update.simps)

lemma chunk_state_update_Nil: "chunk_state_update c [] = Inr c"
  by (simp add: chunk_state_update.simps)

lemma hasher_update_fits:
  assumes "hasher_ok h" "chunk_state_len (chunk h) + length xs \<le> 1024"
  shows "\<exists>c'. chunk_state_update (chunk h) xs = Inr c' \<and>
              blake3_hasher_update h xs = Inr (h\<lparr>chunk := c'\<rparr>) \<and>
              hasher_ok (h\<lparr>chunk := c'\<rparr>) \<and>
              chunk_state_len c' = chunk_state_len (chunk h) + length xs \<and>
              flags c' = flags (chunk h)"
proof -
  have ok: "chunk_ok (chunk h)" using assms(1) by (simp add: hasher_ok_def)
  obtain c' where c': "chunk_state_update (chunk h) xs = Inr c'" "chunk_ok c'"
      "chunk_state_len c' = chunk_state_len (chunk h) + length xs"
      "flags c' = flags (chunk h)" "chunk_counter c' = chunk_counter (chunk h)"
    using chunk_state_update_ok [OF ok assms(2)] by blast
  have ok': "hasher_ok (h\<lparr>chunk := c'\<rparr>)"
    using assms(1) c'(2,5) by (rule hasher_ok_chunk_update)
  have "blake3_hasher_update h xs = Inr (h\<lparr>chunk := c'\<rparr>)"
  proof (cases "xs = []")
    case True
    then show ?thesis using c'(1) by (simp add: hasher_update_Nil chunk_state_update_Nil)
  next
    case False
    then have lt: "chunk_state_len (chunk h) < 1024" using assms(2) by (cases xs) auto
    then have nf: "\<not> hasher_chunk_full h"
      using hasher_chunk_full_iff [OF ok refl] by simp
    have want: "hasher_want h = 1024 - chunk_state_len (chunk h)"
      using lt by (intro hasher_want_ok) simp
    have tk: "min (length xs) (hasher_want h) = length xs"
      using assms(2) want by simp
    show ?thesis
      using False nf c'(1)
      by (subst blake3_hasher_update.simps) (simp add: tk Let_def hasher_update_Nil)
  qed
  then show ?thesis using c' ok' by blast
qed

lemma hasher_update_full:
  assumes "hasher_ok h" "chunk_state_len (chunk h) = 1024" "xs \<noteq> []"
  shows "blake3_hasher_update h xs = Inl StackUnderflow"
proof -
  have ok: "chunk_ok (chunk h)" using assms(1) by (simp add: hasher_ok_def)
  have f: "hasher_chunk_full h"
    using hasher_chunk_full_iff [OF ok refl] assms(2) by simp
  have "hasher_complete_chunk h = Inl StackUnderflow"
    using assms(1) by (intro hasher_complete_chunk_underflow) (simp_all add: hasher_ok_def)
  then show ?thesis
    using assms(3) f by (subst blake3_hasher_update.simps) simp
qed

lemma hasher_update_overflow:
  assumes "hasher_ok h" "1024 < chunk_state_len (chunk h) + length xs"
  shows "blake3_hasher_update h xs = Inl StackUnderflow"
proof -
  have ok: "chunk_ok (chunk h)" using assms(1) by (simp add: hasher_ok_def)
  then have le: "chunk_state_len (chunk h) \<le> 1024" by (simp add: chunk_ok_def)
  then have ne: "xs \<noteq> []" using assms(2) by auto
  show ?thesis
  proof (cases "chunk_state_len (chunk h) = 1024")
    case True
    with assms(1) show ?thesis using ne by (rule hasher_update_full)
  next
    case False
    let ?w = "1024 - chunk_state_len (chunk h)"
    have lt: "chunk_state_len (chunk h) < 1024" using le False by simp
    then have nf: "\<not> hasher_chunk_full h"
      using hasher_chunk_full_iff [OF ok refl] by simp
    have want: "hasher_want h = ?w" using le by (rule hasher_want_ok)
    have tk: "min (length xs) (hasher_want h) = ?w" "0 < ?w"
      using assms(2) want lt by simp_all
    have "chunk_state_len (chunk h) + length (take ?w xs) \<le> 1024"
      using le by simp
    then obtain c' where c': "chunk_state_update (chunk h) (take ?w xs) = Inr c'"
        "blake3_hasher_update h (take ?w xs) = Inr (h\<lparr>chunk := c'\<rparr>)"
        "hasher_ok (h\<lparr>chunk := c'\<rparr>)"
        "chunk_state_len c' = chunk_state_len (chunk h) + length (take ?w xs)"
      using hasher_update_fits [OF assms(1)] by blast
    have full: "chunk_state_len (chunk (h\<lparr>chunk := c'\<rparr>)) = 1024"
      using c'(4) assms(2) lt by simp
    have rest: "drop ?w xs \<noteq> []" using assms(2) lt by simp
    have "blake3_hasher_update h xs = blake3_hasher_update (h\<lparr>chunk := c'\<rparr>) (drop ?w xs)"
      using ne nf c'(1) tk by (subst blake3_hasher_update.simps) (simp add: Let_def)
    also have "\<dots> = Inl StackUnderflow"
      using c'(3) full rest by (rule hasher_update_full)
    finally show ?thesis .
  qed
qed

lemma hasher_update_append:
  assumes "hasher_ok h"
  shows "blake3_hasher_update h (xs @ ys) =
           bind_err (blake3_hasher_update h xs) (\<lambda>h'. blake3_hasher_update h' ys)"
proof (cases "chunk_state_len (chunk h) + length xs \<le> 1024")
  case True
  then obtain c' where c': "chunk_state_update (chunk h) xs = Inr c'"
      "blake3_hasher_update h xs = Inr (h\<lparr>chunk := c'\<rparr>)"
      "hasher_ok (h\<lparr>chunk := c'\<rparr>)"
      "chunk_state_len c' = chunk_state_len (chunk h) + length xs"
    using hasher_update_fits [OF assms] by blast
  have wf: "wf_chunk (chunk h)" using assms by (simp add: hasher_ok_def chunk_ok_def)
  show ?thesis
  proof (cases "chunk_state_len (chunk h) + length (xs @ ys) \<le> 1024")
    case fits: True
    then obtain d where d: "chunk_state_update (chunk h) (xs @ ys) = Inr d"
        "blake3_hasher_update h (xs @ ys) = Inr (h\<lparr>chunk := d\<rparr>)"
      using hasher_update_fits [OF assms] by blast
    have "chunk_state_len (chunk (h\<lparr>chunk := c'\<rparr>)) + length ys \<le> 1024"
      using fits c'(4) by simp
    then obtain e where e: "chunk_state_update (chunk (h\<lparr>chunk := c'\<rparr>)) ys = Inr e"
        "blake3_hasher_update (h\<lparr>chunk := c'\<rparr>) ys = Inr (h\<lparr>chunk := c'\<rparr>\<lparr>chunk := e\<rparr>)"
      using hasher_update_fits [OF c'(3)] by blast
    have "d = e"
      using chunk_state_update_append [OF wf, of xs ys] d(1) c'(1) e(1) by simp
    then show ?thesis by (simp add: d(2) c'(2) e(2))
  next
    case False
    then have "1024 < chunk_state_len (chunk (h\<lparr>chunk := c'\<rparr>)) + length ys"
      using c'(4) by simp
    then have "blake3_hasher_update (h\<lparr>chunk := c'\<rparr>) ys = Inl StackUnderflow"
      using c'(3) by (intro hasher_update_overflow)
    moreover have "blake3_hasher_update h (xs @ ys) = Inl StackUnderflow"
      using assms False by (intro hasher_update_overflow) simp_all
    ultimately show ?thesis by (simp add: c'(2))
  qed
next
  case False
  then have "blake3_hasher_update h xs = Inl StackUnderflow"
    using assms by (intro hasher_update_overflow) simp_all
  moreover have "blake3_hasher_update h (xs @ ys) = Inl StackUnderflow"
    using assms False by (intro hasher_update_overflow) simp_all
  ultimately show ?thesis by simp
qed

lemma hasher_ok_init: "hasher_ok blake3_hasher_init"
  by (simp add: hasher_ok_def blake3_hasher_init_def chunk_ok_def wf_chunk_def
        chunk_state_init_def chunk_state_len_def BLAKE3_BLOCK_LEN_def)

lemma chunk_state_len_init: "chunk_state_len (chunk blake3_hasher_init) = 0"
  by (simp add: blake3_hasher_init_def chunk_state_init_def chunk_state_len_def)

subsection \<open>Extended output and the exported digest\<close>

lemma upt_16: "[0..<16] = [0, 1, 2, 3, 4, 5, 6, 7, 8, 9, 10, 11, 12, 13, 14, 15 :: nat]"
  by code_simp

lemma upt_8: "[0..<8] = [0, 1, 2, 3, 4, 5, 6, 7 :: nat]"
  by code_simp

lemma length_compress_xof [simp]: "length (blake3_compress_xof k block n c fl) = 64"
  by (simp add: blake3_compress_xof_def Let_def upt_16 store32_def)

lemma replicate_32:
  "replicate 32 x = [x, x, x, x, x, x, x, x, x, x, x, x, x, x, x, x,
                     x, x, x, x, x, x, x, x, x, x, x, x, x, x, x, x]"
  by (simp add: numeral_eq_Suc)

lemma take_32_compress_xof: "take 32 (blake3_compress_xof k block n c fl) = replicate 32 0"
  by (simp add: blake3_compress_xof_def Let_def upt_16 store32_def replicate_32)

lemma finalize_parents_empty: "finalize_parents k fl stack 0 p = Inr p"
  by simp

lemma hasher_finalize_digest:
  assumes "cv_stack_len self = 0" "length out = n" "n \<le> 32"
  shows "blake3_hasher_finalize past_end self out n = Inr (replicate n 0)"
proof -
  let ?p = "map (load32 (chunk_state_output (chunk self))) [0..<8]"
  let ?wide = "blake3_compress_xof ?p (words_bytes ?p @ past_end 0) 32 0 (flags (chunk self) OR ROOT)"
  have "take n ?wide = take n (take 32 ?wide)" using assms(3) by (simp add: min_def)
  also have "\<dots> = replicate n 0" using assms(3) by (simp add: take_32_compress_xof min_def)
  finally have "take n ?wide = replicate n 0" .
  then show ?thesis
    using assms by (simp add: blake3_hasher_finalize_def Let_def memcpy_def)
qed

lemma blake3_digest_zero:
  assumes "length input \<le> 1024" "length out = n" "n \<le> 32"
  shows "blake3 past_end input out n = Inr (replicate n 0)"
proof -
  have "chunk_state_len (chunk blake3_hasher_init) + length input \<le> 1024"
    using assms(1) by (simp add: chunk_state_len_init)
  then obtain c' where c': "blake3_hasher_update blake3_hasher_init input =
      Inr (blake3_hasher_init\<lparr>chunk := c'\<rparr>)" "hasher_ok (blake3_hasher_init\<lparr>chunk := c'\<rparr>)"
    using hasher_update_fits [OF hasher_ok_init] by blast
  have "cv_stack_len (blake3_hasher_init\<lparr>chunk := c'\<rparr>) = 0"
    using c'(2) by (simp add: hasher_ok_def)
  then show ?thesis
    using assms(2,3) by (simp add: blake3_def c'(1) hasher_finalize_digest)
qed

lemma bytes_to_hex_zero: "bytes_to_hex (replicate 32 0) 32 = replicate 64 CHR ''0''"
  by code_simp

subsection \<open>Pieces, and the output loop\<close>

lemma hasher_update_ok_preserved:
  assumes "hasher_ok h" "blake3_hasher_update h xs = Inr h'"
  shows "hasher_ok h'"
proof (cases "chunk_state_len (chunk h) + length xs \<le> 1024")
  case True
  then show ?thesis
    using hasher_update_fits [OF assms(1), of xs] assms(2) by auto
next
  case False
  then show ?thesis
    using hasher_update_overflow [OF assms(1), of xs] assms(2) by simp
qed

lemma hasher_update_all_concat:
  "hasher_ok h \<Longrightarrow> blake3_hasher_update_all h pieces = blake3_hasher_update h (concat pieces)"
proof (induction pieces arbitrary: h)
  case Nil
  then show ?case by (simp add: hasher_update_Nil)
next
  case (Cons p ps)
  show ?case
  proof (cases "blake3_hasher_update h p")
    case (Inl e)
    then show ?thesis
      using hasher_update_append [OF Cons.prems, of p "concat ps"] by simp
  next
    case (Inr h')
    have "hasher_ok h'" using Cons.prems Inr by (rule hasher_update_ok_preserved)
    then have "blake3_hasher_update_all h' ps = blake3_hasher_update h' (concat ps)"
      by (rule Cons.IH)
    then show ?thesis
      using hasher_update_append [OF Cons.prems, of p "concat ps"] Inr by simp
  qed
qed

lemma memcpy_length: "memcpy dst off src = Inr d \<Longrightarrow> length d = length dst"
  by (auto simp: memcpy_def split: if_splits)

lemma parent_cv_overflow: "parent_cv block k fl = Inl OutOfBounds"
  by (simp add: parent_cv_def parent_output_def memcpy_def)

lemma finalize_parents_cases:
  "finalize_parents k fl stack n p = Inr p \<or> finalize_parents k fl stack n p = Inl OutOfBounds"
proof (cases n)
  case 0
  then show ?thesis by simp
next
  case (Suc i)
  have "finalize_parents k fl stack (Suc i) p = Inl OutOfBounds"
    by (simp add: parent_cv_overflow cv_stack_read_def)
  then show ?thesis using Suc by simp
qed

lemma finalize_xof_loop_overflow:
  "64 < out_len \<Longrightarrow> length out < 64 * (c + (out_len - 1) div 64) \<Longrightarrow>
   finalize_xof_loop past_end p fl c out_len out = Inl OutOfBounds"
proof (induction past_end p fl c out_len out rule: finalize_xof_loop.induct)
  case (1 past_end p fl c out_len out)
  let ?wide = "blake3_compress_xof p (words_bytes p @ past_end c) 32 (of_nat c) fl"
  show ?case
  proof (cases "memcpy out (64 * c) (take (if 64 < out_len then 64 else out_len) ?wide)")
    case (Inl e)
    then have "e = OutOfBounds" by (auto simp: memcpy_def split: if_splits)
    then show ?thesis
      using Inl "1.prems"(1) by (subst finalize_xof_loop.simps) (simp add: Let_def)
  next
    case (Inr out')
    then have fit: "64 * c + 64 \<le> length out" and len: "length out' = length out"
      using "1.prems"(1) by (auto simp: memcpy_def split: if_splits)
    have big: "128 < out_len"
    proof (rule ccontr)
      assume "\<not> 128 < out_len"
      then have "(out_len - 1) div 64 = 1"
        using "1.prems"(1) by (intro div_nat_eqI) simp_all
      then show False using "1.prems"(2) fit by simp
    qed
    have "out_len - 1 = (out_len - 64 - 1) + 64" using big by simp
    then have "(out_len - 1) div 64 = ((out_len - 64 - 1) + 64) div 64" by (simp only:)
    then have "(out_len - 1) div 64 = Suc ((out_len - 64 - 1) div 64)" by simp
    then have "length out' < 64 * (c + 1 + (out_len - 64 - 1) div 64)"
      using "1.prems"(2) len by simp
    moreover have "64 < out_len - 64" using big by simp
    ultimately have "finalize_xof_loop past_end p fl (c + 1) (out_len - 64) out' = Inl OutOfBounds"
      using "1.IH" [OF "1.prems"(1) refl refl Inr] "1.prems"(1) by simp
    then show ?thesis
      using Inr "1.prems"(1) by (subst finalize_xof_loop.simps) (simp add: Let_def)
  qed
qed

section \<open>The sequential hash on the empty input\<close>

lemma blake2b_empty_eval:
  "blake2b_oneshot [] 64 =
     Inr (\<lparr>S_h = blake2b_IV, S_t = [0, 0], S_f = [0, 0], S_buf = replicate 128 0, S_buflen = 0,
           S_outlen = 64, S_last_node = 0\<rparr>,
          concat (map store64 blake2b_IV))"
  by (simp add: blake2b_oneshot_def blake2b_init_def blake2b_update_def blake2b_update_rest_def
        blake2b_final_def Let_def memcpy_def blake2b_IV_def store64_def)

section \<open>Properties of the batch matching layer\<close>

subsection \<open>Exact matching\<close>

lemma hash_compare_0_iff: "hash_compare a b = 0 \<longleftrightarrow> (\<exists>s. a = Some s \<and> b = Some s)"
  by (auto simp: hash_compare_def split: option.splits)

lemma batch_compare_loop_filter:
  "batch_compare_loop t db n i temp =
     temp @ filter (\<lambda>k. db ! nat k \<noteq> None \<and> hash_compare t (db ! nat k) = 0) [i..n - 1]"
proof (induction t db n i temp rule: batch_compare_loop.induct)
  case (1 t db n i temp)
  show ?case
  proof (cases "i < n")
    case True
    then have "[i..n - 1] = i # [i + 1..n - 1]" by (simp add: upto_rec1)
    then show ?thesis
      using True "1.IH" [OF True] by (subst batch_compare_loop.simps) simp
  next
    case False
    then show ?thesis by (subst batch_compare_loop.simps) simp
  qed
qed

lemma batch_compare_hash_Some:
  assumes "batch_compare_hash malloc_ok t db n mc = (Some ms, c)"
  shows "\<exists>d. db = Some d \<and> ms = batch_compare_loop t d n 0 []"
  using assms by (auto simp: batch_compare_hash_def Let_def split: if_splits)

subsection \<open>Similarity search\<close>

lemma count_bits_loop_ge: "cnt \<le> count_bits_loop byte cnt"
proof (induction byte cnt rule: count_bits_loop.induct)
  case (1 byte cnt)
  show ?case
  proof (cases "byte = 0")
    case True
    then show ?thesis by (subst count_bits_loop.simps) simp
  next
    case False
    have "cnt \<le> cnt + uint (byte AND 1)" by simp
    also have "\<dots> \<le> count_bits_loop (drop_bit 1 byte) (cnt + uint (byte AND 1))"
      using False by (rule "1.IH")
    finally show ?thesis using False by (subst count_bits_loop.simps) simp
  qed
qed

lemma count_bits_nonneg: "0 \<le> count_bits b"
  by (simp add: count_bits_def count_bits_loop_ge)

lemma fold_count_bits_ge:
  "d \<le> fold (\<lambda>i distance. distance + count_bits (f i)) is d"
proof (induction "is" arbitrary: d)
  case Nil
  then show ?case by simp
next
  case (Cons i "is")
  have "d \<le> d + count_bits (f i)" using count_bits_nonneg by simp
  also have "\<dots> \<le> fold (\<lambda>i distance. distance + count_bits (f i)) is (d + count_bits (f i))"
    by (rule Cons.IH)
  finally show ?case by simp
qed

lemma hash_hamming_distance_nonneg: "0 \<le> hash_hamming_distance (Some h1) (Some h2) len"
  by (simp add: hash_hamming_distance_def fold_count_bits_ge)

text \<open>
  The scan collects, in the order of the indices, the candidates that are not \<open>NULL\<close> and
  whose similarity is at least the threshold.
\<close>

lemma batch_similarity_loop_filter:
  assumes "tg = Some t"
  shows "batch_similarity_loop tg len db n th tb i temp =
     temp @
     map (\<lambda>k. \<lparr>index = k,
                similarity = double_similarity (hash_hamming_distance (Some t) (db ! nat k) len) tb\<rparr>)
       (filter (\<lambda>k. db ! nat k \<noteq> None \<and> tb \<noteq> 0 \<and>
                    th \<le> double_similarity (hash_hamming_distance (Some t) (db ! nat k) len) tb)
          [i..n - 1])"
  using assms
proof (induction tg len db n th tb i temp rule: batch_similarity_loop.induct)
  case (1 tg len db n th tb i temp)
  show ?case
  proof (cases "i < n")
    case False
    then show ?thesis by (subst batch_similarity_loop.simps) simp
  next
    case True
    then have u: "[i..n - 1] = i # [i + 1..n - 1]" by (simp add: upto_rec1)
    let ?d = "hash_hamming_distance (Some t) (db ! nat i) len"
    let ?keep = "db ! nat i \<noteq> None \<and> tb \<noteq> 0 \<and> th \<le> double_similarity ?d tb"
    let ?temp = "if ?keep then temp @ [\<lparr>index = i, similarity = double_similarity ?d tb\<rparr>]
                 else temp"
    have nonneg: "\<not> ?d < 0" if ne: "db ! nat i \<noteq> None"
    proof -
      obtain cand where "db ! nat i = Some cand" using ne by auto
      then show ?thesis using hash_hamming_distance_nonneg [of t cand len] by simp
    qed
    have step: "(if db ! nat i = None then temp
           else
             let distance = hash_hamming_distance tg (db ! nat i) len
             in if distance < 0 then temp
                else if tb = 0 then temp
                else
                  let sim = double_similarity distance tb
                  in if sim \<ge> th then temp @ [\<lparr>index = i, similarity = sim\<rparr>]
                     else temp) = ?temp"
      using nonneg "1.prems" by (simp add: Let_def)
    have "batch_similarity_loop tg len db n th tb i temp =
            batch_similarity_loop tg len db n th tb (i + 1) ?temp"
      using True by (subst batch_similarity_loop.simps) (simp only: step if_True)
    also have "\<dots> = ?temp @
        map (\<lambda>k. \<lparr>index = k,
                   similarity = double_similarity (hash_hamming_distance (Some t) (db ! nat k) len) tb\<rparr>)
          (filter (\<lambda>k. db ! nat k \<noteq> None \<and> tb \<noteq> 0 \<and>
                       th \<le> double_similarity (hash_hamming_distance (Some t) (db ! nat k) len) tb)
             [i + 1..n - 1])"
      using "1.IH" [OF True "1.prems"] by (simp only: step)
    finally show ?thesis by (simp add: u)
  qed
qed

subsection \<open>The selection sort\<close>

lemma sort_find_max_props:
  assumes "m < cnt"
  shows "sort_find_max temp cnt j m < cnt \<and>
         (sort_find_max temp cnt j m = m \<or> j \<le> sort_find_max temp cnt j m) \<and>
         similarity (temp ! m) \<le> similarity (temp ! sort_find_max temp cnt j m) \<and>
         (\<forall>k. j \<le> k \<and> k < cnt \<longrightarrow>
              similarity (temp ! k) \<le> similarity (temp ! sort_find_max temp cnt j m))"
  using assms
proof (induction temp cnt j m rule: sort_find_max.induct)
  case (1 temp cnt j m)
  show ?case
  proof (cases "j < cnt")
    case False
    then show ?thesis using "1.prems" by (subst (1 2 3 4 5) sort_find_max.simps) simp
  next
    case True
    let ?m = "if similarity (temp ! j) > similarity (temp ! m) then j else m"
    let ?r = "sort_find_max temp cnt (j + 1) ?m"
    have eq: "sort_find_max temp cnt j m = ?r"
      using True by (subst sort_find_max.simps) simp
    have "?m < cnt" using True "1.prems" by simp
    then have ih: "?r < cnt" "?r = ?m \<or> j + 1 \<le> ?r"
        "similarity (temp ! ?m) \<le> similarity (temp ! ?r)"
        "\<forall>k. j + 1 \<le> k \<and> k < cnt \<longrightarrow> similarity (temp ! k) \<le> similarity (temp ! ?r)"
      using "1.IH" [OF True] by blast+
    have a: "?r = m \<or> j \<le> ?r" using ih(2) by (auto split: if_splits)
    have b: "similarity (temp ! m) \<le> similarity (temp ! ?r)"
      using ih(3) by (auto split: if_splits)
    have c: "similarity (temp ! j) \<le> similarity (temp ! ?r)"
      using ih(3) by (auto split: if_splits)
    have d: "\<forall>k. j \<le> k \<and> k < cnt \<longrightarrow> similarity (temp ! k) \<le> similarity (temp ! ?r)"
    proof (intro allI impI)
      fix k assume k: "j \<le> k \<and> k < cnt"
      show "similarity (temp ! k) \<le> similarity (temp ! ?r)"
      proof (cases "k = j")
        case True
        then show ?thesis using c by simp
      next
        case False
        then have "j + 1 \<le> k \<and> k < cnt" using k by simp
        then show ?thesis using ih(4) by blast
      qed
    qed
    show ?thesis unfolding eq using ih(1) a b d by blast
  qed
qed

lemma length_selection_sort [simp]: "length (selection_sort temp cnt i) = length temp"
proof (induction temp cnt i rule: selection_sort.induct)
  case (1 temp cnt i)
  show ?case
  proof (cases "i + 1 < cnt")
    case True
    let ?r = "sort_find_max temp cnt (i + 1) i"
    let ?t = "if ?r \<noteq> i then temp[i := temp ! ?r, ?r := temp ! i] else temp"
    have eq: "selection_sort temp cnt i = selection_sort ?t cnt (i + 1)"
      using True by (subst selection_sort.simps) (simp add: Let_def)
    have "length (selection_sort ?t cnt (i + 1)) = length ?t"
      using "1.IH" [OF True refl refl] .
    then show ?thesis unfolding eq by simp
  next
    case False
    then show ?thesis by (subst selection_sort.simps) simp
  qed
qed

lemma mset_selection_sort: "cnt \<le> length temp \<Longrightarrow> mset (selection_sort temp cnt i) = mset temp"
proof (induction temp cnt i rule: selection_sort.induct)
  case (1 temp cnt i)
  show ?case
  proof (cases "i + 1 < cnt")
    case False
    then show ?thesis by (subst selection_sort.simps) simp
  next
    case True
    let ?r = "sort_find_max temp cnt (i + 1) i"
    let ?t = "if ?r \<noteq> i then temp[i := temp ! ?r, ?r := temp ! i] else temp"
    have r: "?r < cnt" using sort_find_max_props [of i cnt temp "i + 1"] True by simp
    have len: "cnt \<le> length ?t" using "1.prems" by simp
    have "mset ?t = mset temp"
      using r True "1.prems" by (simp add: mset_swap)
    moreover have "mset (selection_sort ?t cnt (i + 1)) = mset ?t"
      using "1.IH" [OF True refl refl len] .
    moreover have "selection_sort temp cnt i = selection_sort ?t cnt (i + 1)"
      using True by (subst selection_sort.simps) (simp add: Let_def)
    ultimately show ?thesis by (simp only:)
  qed
qed

lemma selection_sort_ordered:
  assumes "cnt \<le> length temp"
    and "\<forall>p q. p < q \<and> p < i \<and> q < cnt \<longrightarrow> similarity (temp ! q) \<le> similarity (temp ! p)"
  shows "\<forall>p q. p < q \<and> q < cnt \<longrightarrow>
           similarity (selection_sort temp cnt i ! q) \<le> similarity (selection_sort temp cnt i ! p)"
  using assms
proof (induction temp cnt i rule: selection_sort.induct)
  case (1 temp cnt i)
  show ?case
  proof (cases "i + 1 < cnt")
    case False
    have "selection_sort temp cnt i = temp"
      using False by (subst selection_sort.simps) simp
    moreover have "\<forall>p q. p < q \<and> q < cnt \<longrightarrow> p < i"
      using False by auto
    ultimately show ?thesis using "1.prems"(2) by auto
  next
    case lt: True
    let ?r = "sort_find_max temp cnt (i + 1) i"
    let ?t = "if ?r \<noteq> i then temp[i := temp ! ?r, ?r := temp ! i] else temp"
    have props: "?r < cnt" "?r = i \<or> i + 1 \<le> ?r"
        "similarity (temp ! i) \<le> similarity (temp ! ?r)"
        "\<forall>k. i + 1 \<le> k \<and> k < cnt \<longrightarrow> similarity (temp ! k) \<le> similarity (temp ! ?r)"
      using sort_find_max_props [of i cnt temp "i + 1"] lt by simp_all
    have len: "cnt \<le> length ?t" using "1.prems"(1) by simp
    have inv: "\<forall>p q. p < q \<and> p < i + 1 \<and> q < cnt \<longrightarrow>
                 similarity (?t ! q) \<le> similarity (?t ! p)"
    proof (intro allI impI)
      fix p q assume pq: "p < q \<and> p < i + 1 \<and> q < cnt"
      show "similarity (?t ! q) \<le> similarity (?t ! p)"
      proof (cases "?r = i")
        case same: True
        show ?thesis
        proof (cases "p = i")
          case True
          then have "i + 1 \<le> q \<and> q < cnt" using pq by simp
          then show ?thesis using props(4) same True by simp
        next
          case False
          then have "p < i" using pq by simp
          then show ?thesis using "1.prems"(2) pq same by simp
        qed
      next
        case diff: False
        then have ri: "i + 1 \<le> ?r" using props(2) by simp
        have tq: "?t ! q = (if q = ?r then temp ! i else if q = i then temp ! ?r else temp ! q)"
          using diff pq "1.prems"(1) props(1) lt by (simp add: nth_list_update)
        show ?thesis
        proof (cases "p = i")
          case True
          then have tp: "?t ! p = temp ! ?r"
            using diff "1.prems"(1) lt ri by (simp add: nth_list_update)
          have "i + 1 \<le> q" using True pq by simp
          then show ?thesis
            using tq tp props(3,4) pq by auto
        next
          case False
          then have pi: "p < i" using pq by simp
          then have tp: "?t ! p = temp ! p"
            using diff ri by (simp add: nth_list_update)
          have "similarity (temp ! i) \<le> similarity (temp ! p)"
            using "1.prems"(2) pi lt by simp
          moreover have "similarity (temp ! ?r) \<le> similarity (temp ! p)"
            using "1.prems"(2) pi props(1) ri by simp
          moreover have "similarity (temp ! q) \<le> similarity (temp ! p)"
            using "1.prems"(2) pi pq by simp
          ultimately show ?thesis using tq tp by simp
        qed
      qed
    qed
    have "\<forall>p q. p < q \<and> q < cnt \<longrightarrow>
            similarity (selection_sort ?t cnt (i + 1) ! q) \<le>
            similarity (selection_sort ?t cnt (i + 1) ! p)"
      using "1.IH" [OF lt refl refl len inv] .
    moreover have "selection_sort temp cnt i = selection_sort ?t cnt (i + 1)"
      using lt by (subst selection_sort.simps) (simp add: Let_def)
    ultimately show ?thesis by simp
  qed
qed

lemma selection_sort_sorted:
  "sorted_wrt (\<lambda>a b. similarity b \<le> similarity a) (selection_sort temp (length temp) 0)"
  using selection_sort_ordered [of "length temp" temp 0]
  by (simp add: sorted_wrt_iff_nth_less)

subsection \<open>The guards, and an empty target text\<close>

lemma batch_compare_hash_guard:
  "t = None \<or> db = None \<or> n \<le> 0 \<Longrightarrow>
   batch_compare_hash malloc_ok t db n mc = (None, if mc then Some 0 else None)"
  by (auto simp: batch_compare_hash_def)

lemma batch_similarity_search_guard:
  "t = None \<or> db = None \<or> n \<le> 0 \<or> len = 0 \<Longrightarrow>
   batch_similarity_search malloc_ok t len db n th rc = (None, if rc then Some 0 else None)"
  by (auto simp: batch_similarity_search_def)

lemma batch_compare_empty_target:
  assumes "Some '''' \<notin> set d" "n \<le> int (length d)"
  shows "batch_compare_hash malloc_ok (Some '''') (Some d) n True = (None, Some 0)"
proof -
  have "filter (\<lambda>k. d ! nat k \<noteq> None \<and> hash_compare (Some '''') (d ! nat k) = 0) [0..n - 1] = []"
  proof (rule filter_False, intro ballI)
    fix k assume "k \<in> set [0..n - 1]"
    then have "nat k < length d" using assms(2) by auto
    then have "d ! nat k \<noteq> Some ''''" using assms(1) by (metis nth_mem)
    then show "\<not> (d ! nat k \<noteq> None \<and> hash_compare (Some '''') (d ! nat k) = 0)"
      by (auto simp: hash_compare_0_iff)
  qed
  then show ?thesis
    by (simp add: batch_compare_hash_def batch_compare_loop_filter Let_def)
qed

section \<open>Claims\<close>

text \<open>
  C1 (the code breaks it). The claim is that both engines reproduce the published digests
  of BLAKE3 and BLAKE2b for the empty input and for a short ASCII string. The tree hash
  returns 32 zero bytes for the empty input, and the hex string of 64 zeros for
  \<open>hello world\<close>, as for every input of at most 1024 bytes (lemma \<open>blake3_digest_zero\<close>); the
  sequential hash returns the little-endian bytes of its initialization vector for the
  empty input, since \<open>blake2b_final\<close> compresses nothing when the buffer is empty. None of
  them is the published digest, and the second is not what the header documents.
\<close>

theorem reference_digests_missed:
  "blake3 past_end [] (replicate 32 0) 32 = Inr (replicate 32 0) \<and>
   replicate 32 0 \<noteq> blake3_reference_empty \<and>
   blake3_hash_string past_end hash_garbage True (Some ''hello world'') =
     Inr (Some (replicate 64 CHR ''0'')) \<and>
   take 6 (replicate 64 CHR ''0'') \<noteq> documented_hello_world_prefix \<and>
   map_sum id snd (blake2b_oneshot [] 64) = Inr (concat (map store64 blake2b_IV)) \<and>
   concat (map store64 blake2b_IV) \<noteq> blake2b_reference_empty"
proof (intro conjI)
  show "blake3 past_end [] (replicate 32 0) 32 = Inr (replicate 32 0)"
    by (rule blake3_digest_zero) simp_all
  have "blake3 past_end (string_bytes ''hello world'') (map hash_garbage [0..<32]) 32 =
          Inr (replicate 32 0)"
    by (rule blake3_digest_zero) (simp_all add: string_bytes_def)
  then show "blake3_hash_string past_end hash_garbage True (Some ''hello world'') =
               Inr (Some (replicate 64 CHR ''0''))"
    by (simp add: blake3_hash_string_def DETECTIVE_HASH_LEN_def bytes_to_hex_zero)
  show "replicate 32 0 \<noteq> blake3_reference_empty"
    by (simp add: blake3_reference_empty_def replicate_32)
  show "take 6 (replicate 64 CHR ''0'') \<noteq> documented_hello_world_prefix"
    by (simp add: documented_hello_world_prefix_def numeral_eq_Suc)
  show "map_sum id snd (blake2b_oneshot [] 64) = Inr (concat (map store64 blake2b_IV))"
    by (simp add: blake2b_empty_eval)
  show "concat (map store64 blake2b_IV) \<noteq> blake2b_reference_empty"
    by (simp add: blake2b_IV_def store64_def blake2b_reference_empty_def)
qed

text \<open>
  C2. The first 32 bytes of every output of \<open>blake3_compress_xof\<close> are zero: each of the first
  eight output words is a state word XORed with itself. Hence, for every non-\<open>NULL\<close> input
  string of at most 1024 bytes, \<open>blake3_hash_string\<close> returns the 64-character hex string
  that consists of the character \<open>0\<close> only, whatever the input is and whatever the array
  \<open>hash\<close> held before \<open>blake3\<close> wrote the digest into it. The allocation of the result is
  taken to succeed, and the bytes read past the end of \<open>parent_nodes\<close> are arbitrary.
\<close>

theorem blake3_hash_string_constant:
  "take 32 (blake3_compress_xof k block n c fl) = replicate 32 0 \<and>
   (length s \<le> 1024 \<and> malloc_ok \<longrightarrow>
      blake3_hash_string past_end hash_garbage malloc_ok (Some s) =
        Inr (Some (replicate 64 CHR ''0'')))"
proof (intro conjI impI)
  show "take 32 (blake3_compress_xof k block n c fl) = replicate 32 0"
    by (rule take_32_compress_xof)
  assume a: "length s \<le> 1024 \<and> malloc_ok"
  then have "blake3 past_end (string_bytes s) (map hash_garbage [0..<32]) 32 =
               Inr (replicate 32 0)"
    by (intro blake3_digest_zero) (simp_all add: string_bytes_def)
  then show "blake3_hash_string past_end hash_garbage malloc_ok (Some s) =
               Inr (Some (replicate 64 CHR ''0''))"
    using a by (simp add: blake3_hash_string_def DETECTIVE_HASH_LEN_def bytes_to_hex_zero)
qed

theorem blake3_hash_string_constant_witness:
  "length ''import os'' \<le> 1024 \<and>
   blake3_hash_string (\<lambda>_. replicate 32 7) (\<lambda>_. 0xAA) True (Some ''import os'') =
     Inr (Some ''0000000000000000000000000000000000000000000000000000000000000000'')"
  using blake3_hash_string_constant
    [of _ _ _ _ _ "''import os''" True "\<lambda>_. replicate 32 7" "\<lambda>_. 0xAA"]
  by (simp add: numeral_eq_Suc)

text \<open>
  C3 (the code breaks it). The claim is that the carry-merge loop of \<open>add_chunk_cv\<close> never
  pops from an empty stack. The first chunk to be completed is added with
  \<open>total_chunks = 1\<close>, whose low bit is set, while the stack is empty: the loop reads the
  entry at index \<open>cv_stack_len - 1 = -1\<close>. Every input of more than 1024 bytes reaches this
  point (lemma \<open>hasher_update_overflow\<close>); here it is 1025 zero bytes.
\<close>

theorem carry_loop_pops_empty_stack:
  "add_chunk_cv blake3_hasher_init new_cv 1 = Inl StackUnderflow \<and>
   blake3_hasher_update blake3_hasher_init (replicate 1025 0) = Inl StackUnderflow"
proof
  show "add_chunk_cv blake3_hasher_init new_cv 1 = Inl StackUnderflow"
    by (simp add: add_chunk_cv_def add_chunk_cv_loop.simps [of _ _ _ _ _ 1] cv_stack_read_def
          blake3_hasher_init_def)
  show "blake3_hasher_update blake3_hasher_init (replicate 1025 0) = Inl StackUnderflow"
    by (rule hasher_update_overflow [OF hasher_ok_init]) (simp add: chunk_state_len_init)
qed

text \<open>
  C4 (the code breaks it). The claim is that \<open>blake3_hasher_finalize\<close> produces exactly
  \<open>out_len\<close> bytes. For \<open>out_len = 1000\<close> the output loop runs while the remaining length
  exceeds 64 and always copies a whole 64-byte block, so after the first 64 bytes it writes
  15 more blocks, 1024 bytes in all: with a buffer of 1000 bytes the last copy runs past its
  end, for every hasher state.
\<close>

theorem finalize_1000_overruns:
  "blake3_hasher_finalize past_end self (replicate 1000 b) 1000 = Inl OutOfBounds"
proof -
  let ?k = "key self" and ?fl = "flags (chunk self)"
  let ?w = "map (load32 (chunk_state_output (chunk self))) [0..<8]"
  consider "finalize_parents ?k ?fl (cv_stack self) (unat (cv_stack_len self)) ?w = Inr ?w"
    | "finalize_parents ?k ?fl (cv_stack self) (unat (cv_stack_len self)) ?w = Inl OutOfBounds"
    using finalize_parents_cases by blast
  then show ?thesis
  proof cases
    case 1
    let ?wide = "blake3_compress_xof ?w (words_bytes ?w @ past_end 0) 32 0 (?fl OR ROOT)"
    obtain out1 where out1: "memcpy (replicate 1000 b) 0 (take 64 ?wide) = Inr out1"
      by (simp add: memcpy_def)
    then have "length out1 = 1000" by (auto dest: memcpy_length)
    then have "finalize_xof_loop past_end ?w (?fl OR ROOT) 1 1000 out1 = Inl OutOfBounds"
      by (intro finalize_xof_loop_overflow) simp_all
    then show ?thesis
      using 1 out1 by (simp add: blake3_hasher_finalize_def Let_def)
  next
    case 2
    then show ?thesis by (simp add: blake3_hasher_finalize_def Let_def)
  qed
qed

text \<open>
  C5 (the code breaks it). The claim is that \<open>blake2b_final\<close> always sets the finalization
  flag and runs one last compression, the empty input included. After \<open>blake2b_init\<close> with
  output length 64 and no input, \<open>blake2b_final\<close> finds \<open>buflen = 0\<close> and skips the padding,
  the flag and the compression: the state it leaves is the initial one, with \<open>f[0] = 0\<close> and
  the chaining words still the initialization vector, whose bytes are the output.
\<close>

theorem blake2b_final_empty_skips_compression:
  "blake2b_oneshot [] 64 =
     Inr (\<lparr>S_h = blake2b_IV, S_t = [0, 0], S_f = [0, 0], S_buf = replicate 128 0, S_buflen = 0,
           S_outlen = 64, S_last_node = 0\<rparr>,
          concat (map store64 blake2b_IV))"
  by (rule blake2b_empty_eval)

text \<open>
  C6 as stated fails: entries of equal score do not keep the order of their candidate
  indices. With the one-byte target \<open>0x00\<close> and the candidates \<open>0x01\<close>, \<open>0x01\<close>, \<open>0x00\<close> at
  threshold 0, the first pass of the selection sort swaps the entries at positions 0 and 2,
  which puts candidate 0 behind candidate 1, both of score 7/8.
\<close>

theorem similarity_ties_reordered:
  "fst (batch_similarity_search True (Some [0]) 1 (Some [Some [1], Some [1], Some [0]]) 3 0 True) =
     Some [\<lparr>index = 2, similarity = 1\<rparr>, \<lparr>index = 1, similarity = 7 / 8\<rparr>,
           \<lparr>index = 0, similarity = 7 / 8\<rparr>] \<and>
   \<not> ties_in_index_order
       [\<lparr>index = 2, similarity = 1\<rparr>, \<lparr>index = 1, similarity = 7 / 8\<rparr>,
        \<lparr>index = 0, similarity = 7 / 8\<rparr>]"
proof
  show "fst (batch_similarity_search True (Some [0]) 1 (Some [Some [1], Some [1], Some [0]]) 3 0
          True) =
        Some [\<lparr>index = 2, similarity = 1\<rparr>, \<lparr>index = 1, similarity = 7 / 8\<rparr>,
              \<lparr>index = 0, similarity = 7 / 8\<rparr>]"
    by code_simp
  show "\<not> ties_in_index_order
           [\<lparr>index = 2, similarity = 1\<rparr>, \<lparr>index = 1, similarity = 7 / 8\<rparr>,
            \<lparr>index = 0, similarity = 7 / 8\<rparr>]"
    by simp
qed

text \<open>
  C6, amended. Whenever \<open>batch_similarity_search\<close> returns results, they are sorted by score
  in descending order, and they are, each as often as it occurs, the pairs of an index \<open>k\<close>
  from 0 to \<open>db_count - 1\<close> and the similarity of candidate \<open>k\<close>, for exactly those \<open>k\<close> whose
  candidate is not \<open>NULL\<close> and whose similarity, as the source computes it in double
  arithmetic, is at least the threshold. Nothing is promised about the order of entries of
  equal score.
\<close>

theorem similarity_results_sorted:
  assumes "batch_similarity_search malloc_ok (Some t) len (Some db) n th rc = (Some rs, c)"
  shows "sorted_wrt (\<lambda>a b. similarity b \<le> similarity a) rs \<and>
         mset rs =
           mset (map (\<lambda>k. \<lparr>index = k,
                            similarity = double_similarity
                              (hash_hamming_distance (Some t) (db ! nat k) len)
                              (total_bits_of len)\<rparr>)
                   (filter (\<lambda>k. db ! nat k \<noteq> None \<and> total_bits_of len \<noteq> 0 \<and>
                                th \<le> double_similarity
                                       (hash_hamming_distance (Some t) (db ! nat k) len)
                                       (total_bits_of len))
                      [0..n - 1]))"
proof -
  let ?temp = "batch_similarity_loop (Some t) len db n th (total_bits_of len) 0 []"
  have "rs = selection_sort ?temp (length ?temp) 0"
    using assms by (auto simp: batch_similarity_search_def Let_def split: if_splits)
  then have "sorted_wrt (\<lambda>a b. similarity b \<le> similarity a) rs" and "mset rs = mset ?temp"
    by (simp_all add: selection_sort_sorted mset_selection_sort)
  then show ?thesis
    by (simp add: batch_similarity_loop_filter [OF refl])
qed

theorem similarity_results_sorted_witness:
  "batch_similarity_search True (Some [0]) 1
     (Some [Some [3], Some [1], None, Some [0], Some [1]]) 5 (7 / 8) True =
     (Some [\<lparr>index = 3, similarity = 1\<rparr>, \<lparr>index = 1, similarity = 7 / 8\<rparr>,
            \<lparr>index = 4, similarity = 7 / 8\<rparr>], Some 3) \<and>
   sorted_wrt (\<lambda>a b. similarity b \<le> similarity a)
     [\<lparr>index = 3, similarity = 1\<rparr>, \<lparr>index = 1, similarity = 7 / 8\<rparr>,
      \<lparr>index = 4, similarity = 7 / 8\<rparr>] \<and>
   mset [\<lparr>index = 3, similarity = 1\<rparr>, \<lparr>index = 1, similarity = 7 / 8\<rparr>,
         \<lparr>index = 4, similarity = 7 / 8\<rparr>] =
     mset (map (\<lambda>k. \<lparr>index = k,
                      similarity = double_similarity
                        (hash_hamming_distance (Some [0])
                           ([Some [3], Some [1], None, Some [0], Some [1]] ! nat k) 1)
                        (total_bits_of 1)\<rparr>)
             (filter (\<lambda>k. [Some [3 :: u8], Some [1], None, Some [0], Some [1]] ! nat k \<noteq> None \<and>
                          total_bits_of 1 \<noteq> 0 \<and>
                          7 / 8 \<le> double_similarity
                                   (hash_hamming_distance (Some [0])
                                      ([Some [3], Some [1], None, Some [0], Some [1]] ! nat k) 1)
                                   (total_bits_of 1))
                [0..5 - 1]))"
proof -
  have h: "batch_similarity_search True (Some [0]) 1
             (Some [Some [3], Some [1], None, Some [0], Some [1]]) 5 (7 / 8) True =
           (Some [\<lparr>index = 3, similarity = 1\<rparr>, \<lparr>index = 1, similarity = 7 / 8\<rparr>,
                  \<lparr>index = 4, similarity = 7 / 8\<rparr>], Some 3)"
    by code_simp
  show ?thesis
    by (rule conjI [OF h similarity_results_sorted [OF h]])
qed

text \<open>
  C7 (the code breaks it). The claim is that the pieces of an input, fed through successive
  calls of \<open>blake3_hasher_update\<close> and finalized, yield the same digest as one call with the
  whole input. For an input of more than one chunk neither run yields a digest: with 1025
  zero bytes, fed as a piece of 1024 bytes and a piece of one byte or in one call, the
  update closes the first chunk with \<open>total_chunks = 1\<close> on an empty stack and reads before
  the start of \<open>cv_stack\<close>, as in C3, for every output buffer and length. While the whole
  input stays within one chunk the pieces do leave the hasher in the state of the single
  call (lemmas \<open>hasher_update_fits\<close> and \<open>hasher_update_all_concat\<close>).
\<close>

theorem streaming_fails_beyond_one_chunk:
  "blake3_pieces past_end [replicate 1024 0, [0]] out out_len = Inl StackUnderflow \<and>
   blake3 past_end' (replicate 1025 0) out' out_len' = Inl StackUnderflow"
proof
  have whole: "blake3_hasher_update blake3_hasher_init (replicate 1025 0) = Inl StackUnderflow"
    by (rule hasher_update_overflow [OF hasher_ok_init]) (simp add: chunk_state_len_init)
  have "(1025 :: nat) = Suc 1024" by simp
  then have "concat [replicate 1024 0, [0 :: u8]] = replicate 1025 0"
    by (simp only: concat.simps append_Nil2 replicate_append_same replicate_Suc)
  then have "blake3_hasher_update_all blake3_hasher_init [replicate 1024 0, [0]] =
               Inl StackUnderflow"
    using hasher_update_all_concat [OF hasher_ok_init, of "[replicate 1024 0, [0]]"] whole
    by (simp only:)
  then show "blake3_pieces past_end [replicate 1024 0, [0]] out out_len = Inl StackUnderflow"
    by (simp add: blake3_pieces_def)
  show "blake3 past_end' (replicate 1025 0) out' out_len' = Inl StackUnderflow"
    by (simp add: blake3_def whole)
qed

text \<open>
  C8 as stated fails: \<open>batch_compare_hash\<close> tests the target for \<open>NULL\<close>, not for the empty
  text, and an empty target text is compared like any other. It matches a candidate that is
  the empty text.
\<close>

theorem empty_target_matches_empty_candidate:
  "batch_compare_hash True (Some '''') (Some [Some '''', Some ''ab'']) 2 True = (Some [0], Some 1)"
  by code_simp

text \<open>
  C8, amended. \<open>batch_compare_hash\<close> with an absent (\<open>NULL\<close>) target, \<open>batch_compare_hash\<close> and
  \<open>batch_similarity_search\<close> with an empty candidate collection (\<open>db_count \<le> 0\<close>), and
  \<open>batch_compare_hash\<close> with an empty target text against a collection that holds no empty
  text, return the no-results signal: \<open>NULL\<close>, with the count set to 0 when the count pointer
  is given.
\<close>

theorem no_results_signal:
  "batch_compare_hash malloc_ok None db n mc = (None, if mc then Some 0 else None) \<and>
   (n0 \<le> 0 \<longrightarrow>
      batch_compare_hash malloc_ok t db n0 mc = (None, if mc then Some 0 else None) \<and>
      batch_similarity_search malloc_ok tb len dbs n0 th mc = (None, if mc then Some 0 else None)) \<and>
   (Some '''' \<notin> set d \<and> n1 \<le> int (length d) \<longrightarrow>
      batch_compare_hash malloc_ok (Some '''') (Some d) n1 True = (None, Some 0))"
  by (simp add: batch_compare_hash_guard batch_similarity_search_guard batch_compare_empty_target)

theorem no_results_signal_witness:
  "(0 :: int) \<le> 0 \<and>
   batch_compare_hash True (Some ''ab'') (Some []) 0 True = (None, Some 0) \<and>
   batch_similarity_search True (Some [0]) 1 (Some []) 0 (1 / 2) True = (None, Some 0) \<and>
   Some '''' \<notin> set [Some ''ab'', None] \<and> (2 :: int) \<le> int (length [Some ''ab'', None :: string option]) \<and>
   batch_compare_hash True (Some '''') (Some [Some ''ab'', None]) 2 True = (None, Some 0)"
  using no_results_signal [of True "Some []" 0 True 0 "Some ''ab''" "Some [0]" 1 "Some []" "1 / 2"
      "[Some ''ab'', None]" 2]
  by simp

text \<open>
  C9 as stated fails: the similarity that the source compares with the threshold is
  computed in double arithmetic, and it can fall below a threshold that the exact quotient
  \<open>1 - distance / (8 * hash_len)\<close> reaches. With a hash length of 5, a candidate at distance
  36 from the target and the double \<open>7205759403792793 / 2 ^ 56\<close>, the one just below 0.1, as
  threshold, the exact similarity is 1/10, but \<open>36.0 / 40\<close> rounds up and the computed
  similarity is \<open>7205759403792792 / 2 ^ 56\<close>: the candidate is left out.
\<close>

theorem exact_similarity_reaches_threshold_but_excluded:
  "7205759403792793 / 2 ^ 56 \<le>
     1 - real_of_int (hash_hamming_distance (Some [0, 0, 0, 0, 0])
                        (Some [0xff, 0xff, 0xff, 0xff, 0x0f]) 5) / real_of_int (8 * 5) \<and>
   batch_similarity_search True (Some [0, 0, 0, 0, 0]) 5
     (Some [Some [0xff, 0xff, 0xff, 0xff, 0x0f]]) 1 (7205759403792793 / 2 ^ 56) True =
     (None, Some 0)"
proof
  show "7205759403792793 / 2 ^ 56 \<le>
          1 - real_of_int (hash_hamming_distance (Some [0, 0, 0, 0, 0])
                             (Some [0xff, 0xff, 0xff, 0xff, 0x0f]) 5) / real_of_int (8 * 5)"
    by code_simp
  show "batch_similarity_search True (Some [0, 0, 0, 0, 0]) 5
          (Some [Some [0xff, 0xff, 0xff, 0xff, 0x0f]]) 1 (7205759403792793 / 2 ^ 56) True =
          (None, Some 0)"
    by code_simp
qed

text \<open>
  C9, amended. In \<open>batch_similarity_search\<close> with a target and a count pointer, every candidate
  at an index \<open>k\<close> below \<open>db_count\<close> that is not \<open>NULL\<close> and whose similarity as the source
  computes it, \<open>1.0 - (double)distance / total_bits\<close> in double arithmetic with
  \<open>total_bits = (int)(hash_len * 8)\<close> not 0, is greater than or equal to the threshold is in
  the returned results with that similarity; the witness has a similarity equal to the
  threshold.
\<close>

theorem threshold_is_inclusive:
  assumes "0 \<le> k" "k < n" "db ! nat k = Some cand" "total_bits_of len \<noteq> 0"
    and "th \<le> double_similarity (hash_hamming_distance (Some t) (Some cand) len)
                  (total_bits_of len)"
  shows "\<exists>rs. batch_similarity_search True (Some t) len (Some db) n th True =
                (Some rs, Some (int (length rs))) \<and>
              \<lparr>index = k,
               similarity = double_similarity (hash_hamming_distance (Some t) (Some cand) len)
                              (total_bits_of len)\<rparr> \<in> set rs"
proof -
  let ?tb = "total_bits_of len"
  let ?temp = "batch_similarity_loop (Some t) len db n th ?tb 0 []"
  let ?r = "\<lparr>index = k,
             similarity = double_similarity (hash_hamming_distance (Some t) (Some cand) len) ?tb\<rparr>"
  have len: "len \<noteq> 0"
  proof
    assume "len = 0"
    then have "total_bits_of len = 0" by (simp add: total_bits_of_def)
    then show False using assms(4) by simp
  qed
  have "k \<in> set [0..n - 1]" using assms(1,2) by simp
  then have mem: "?r \<in> set ?temp"
    using assms(3,4,5) by (auto simp: batch_similarity_loop_filter [OF refl] intro!: image_eqI [of _ _ k])
  then have ne: "length ?temp \<noteq> 0" by auto
  have "set (selection_sort ?temp (length ?temp) 0) = set ?temp"
    using mset_selection_sort [of "length ?temp" ?temp 0] by (metis order_refl set_mset_mset)
  then have "?r \<in> set (selection_sort ?temp (length ?temp) 0)" using mem by simp
  moreover have "batch_similarity_search True (Some t) len (Some db) n th True =
      (Some (selection_sort ?temp (length ?temp) 0), Some (int (length ?temp)))"
    using assms(1,2) len ne by (simp add: batch_similarity_search_def Let_def)
  ultimately show ?thesis by (intro exI [of _ "selection_sort ?temp (length ?temp) 0"]) simp
qed

theorem threshold_is_inclusive_witness:
  "(0 :: int) \<le> 0 \<and> (0 :: int) < 1 \<and> [Some [1 :: u8]] ! nat 0 = Some [1] \<and>
   total_bits_of 1 \<noteq> 0 \<and>
   (7 / 8 :: real) = double_similarity (hash_hamming_distance (Some [0]) (Some [1]) 1)
                       (total_bits_of 1) \<and>
   batch_similarity_search True (Some [0]) 1 (Some [Some [1]]) 1 (7 / 8) True =
     (Some [\<lparr>index = 0, similarity = 7 / 8\<rparr>], Some 1)"
proof -
  have tb: "total_bits_of 1 \<noteq> 0" by code_simp
  have d: "double_similarity (hash_hamming_distance (Some [0]) (Some [1]) 1) (total_bits_of 1) =
             7 / 8"
    by code_simp
  have e: "batch_similarity_search True (Some [0]) 1 (Some [Some [1]]) 1 (7 / 8) True =
             (Some [\<lparr>index = 0, similarity = 7 / 8\<rparr>], Some 1)"
    by code_simp
  have "\<exists>rs. batch_similarity_search True (Some [0]) 1 (Some [Some [1]]) 1 (7 / 8) True =
                (Some rs, Some (int (length rs))) \<and>
              \<lparr>index = 0,
               similarity = double_similarity (hash_hamming_distance (Some [0]) (Some [1]) 1)
                              (total_bits_of 1)\<rparr> \<in> set rs"
    by (rule threshold_is_inclusive) (use tb d in simp_all)
  then show ?thesis using tb d e by simp
qed

text \<open>
  C10. \<open>hash_compare\<close> returns 1 whenever one of its arguments is \<open>NULL\<close>, whatever the other
  is, and no index returned by \<open>batch_compare_hash\<close> is the index of a \<open>NULL\<close> candidate.
\<close>

theorem null_is_a_mismatch:
  "hash_compare None hash2 = 1 \<and> hash_compare hash1 None = 1 \<and>
   (batch_compare_hash malloc_ok t (Some db) n mc = (Some ms, c) \<longrightarrow>
      (\<forall>k \<in> set ms. db ! nat k \<noteq> None))"
proof (intro conjI impI)
  show "hash_compare None hash2 = 1" by (simp add: hash_compare_def)
  show "hash_compare hash1 None = 1" by (simp add: hash_compare_def split: option.splits)
  assume "batch_compare_hash malloc_ok t (Some db) n mc = (Some ms, c)"
  then have "ms = batch_compare_loop t db n 0 []"
    using batch_compare_hash_Some by blast
  then show "\<forall>k \<in> set ms. db ! nat k \<noteq> None"
    by (simp add: batch_compare_loop_filter)
qed

theorem null_is_a_mismatch_witness:
  "hash_compare None (Some ''ab'') = 1 \<and> hash_compare (Some ''ab'') None = 1 \<and>
   batch_compare_hash True (Some ''ab'') (Some [Some ''ab'', None, Some ''ab'']) 3 True =
     (Some [0, 2], Some 2) \<and>
   list_all (\<lambda>k. [Some ''ab'', None, Some ''ab''] ! nat k \<noteq> None) [0, 2]"
proof -
  have e: "batch_compare_hash True (Some ''ab'') (Some [Some ''ab'', None, Some ''ab'']) 3 True =
             (Some [0, 2], Some 2)"
    by code_simp
  show ?thesis
    using e null_is_a_mismatch [of "Some ''ab''" "Some ''ab''" True "Some ''ab''"
        "[Some ''ab'', None, Some ''ab'']" 3 True "[0, 2]" "Some 2"]
    by simp
qed

end
